theory Spec2Isabelle
  imports Main "HOL-Library.Signed_Division"
begin

section \<open>The scull storage engine (scull/scull.c)\<close>

text \<open>
  A shallow embedding of \<^verbatim>\<open>scull_trim\<close>, \<^verbatim>\<open>scull_follow\<close>, \<^verbatim>\<open>scull_read\<close> and
  \<^verbatim>\<open>scull_write\<close>. The device is a singly linked chain of quantum sets; each set
  owns an array of \<^verbatim>\<open>qset\<close> pointers, each pointer is NULL or owns a buffer of
  \<^verbatim>\<open>quantum\<close> bytes. Nothing in the chain is shared, so the chain is a list of
  nodes, a NULL pointer is \<open>None\<close> and the \<^verbatim>\<open>next\<close> link is the list structure.
\<close>

subsection \<open>C integers\<close>

text \<open>
  C values are HOL integers; every place where the C code narrows a value to a
  fixed width has the wrap-around written out. \<^verbatim>\<open>int\<close> is 32 bits, \<^verbatim>\<open>long\<close>,
  \<^verbatim>\<open>loff_t\<close>, \<^verbatim>\<open>ssize_t\<close> are 64 bits signed and \<^verbatim>\<open>size_t\<close>, \<^verbatim>\<open>unsigned long\<close>
  are 64 bits unsigned (an LP64 kernel, built with wrapping signed arithmetic).
  C division truncates towards zero: \<open>sdiv\<close> and \<open>smod\<close>.
\<close>

definition s32 :: "int \<Rightarrow> int" where
  "s32 x = (x + 2 ^ 31) mod 2 ^ 32 - 2 ^ 31"

definition s64 :: "int \<Rightarrow> int" where
  "s64 x = (x + 2 ^ 63) mod 2 ^ 64 - 2 ^ 63"

definition u64 :: "int \<Rightarrow> int" where
  "u64 x = x mod 2 ^ 64"

subsection \<open>Data model\<close>

text \<open>
  Modelled from the spec: \<^verbatim>\<open>struct scull_qset\<close> and \<^verbatim>\<open>struct scull_dev\<close> are declared
  in \<^verbatim>\<open>scull.h\<close>, which is not among the sources. The spec gives a store a size in
  bytes that is not negative, a quantum size, a node capacity and the head of a
  chain of nodes, and a node an array of slots, each empty or owning one buffer,
  and a link to the next node. The fields have the names \<^verbatim>\<open>scull.c\<close> uses
  (\<^verbatim>\<open>dptr->data\<close>, \<^verbatim>\<open>dptr->next\<close>, \<^verbatim>\<open>dev->data\<close>, \<^verbatim>\<open>dev->quantum\<close>, \<^verbatim>\<open>dev->qset\<close>,
  \<^verbatim>\<open>dev->size\<close>); \<^verbatim>\<open>quantum\<close> and \<^verbatim>\<open>qset\<close> are \<^verbatim>\<open>int\<close>, as the local copies in
  \<^verbatim>\<open>scull_read\<close> are, and \<^verbatim>\<open>size\<close> is an \<^verbatim>\<open>unsigned long\<close>.
\<close>

record scull_qset =
  qs_data :: "string option list option"

record scull_dev =
  data :: "scull_qset list"
  quantum :: int
  qset :: int
  size :: int

definition empty_qset :: scull_qset where
  "empty_qset = \<lparr>qs_data = None\<rparr>"

text \<open>
  The state of a device after \<^verbatim>\<open>scull_init_module\<close>: the array of devices is
  cleared by \<^verbatim>\<open>memset\<close>, then \<^verbatim>\<open>quantum\<close> and \<^verbatim>\<open>qset\<close> are set from the module
  parameters \<^verbatim>\<open>scull_quantum\<close> and \<^verbatim>\<open>scull_qset\<close>.
\<close>

definition scull_init :: "int \<Rightarrow> int \<Rightarrow> scull_dev" where
  "scull_init scull_quantum scull_qset =
     \<lparr>data = [], quantum = scull_quantum, qset = scull_qset, size = 0\<rparr>"

subsection \<open>Kernel services\<close>

text \<open>
  \<^verbatim>\<open>kmalloc\<close> may fail, and the memory it returns is not cleared. Both are inputs
  of the model: \<open>fails K k\<close> tells whether the \<open>k\<close>-th call of \<^verbatim>\<open>kmalloc\<close> fails, and
  \<open>junk K k j\<close> is byte \<open>j\<close> of the block the \<open>k\<close>-th call returns. Every function
  that allocates takes the number of calls made so far and returns the new number.
\<close>

record kmem =
  fails :: "nat \<Rightarrow> bool"
  junk :: "nat \<Rightarrow> nat \<Rightarrow> char"

text \<open>
  The outcomes of a call other than a byte count. The two traps are the
  undefined behaviour of the C code (a division by zero, an access outside an
  allocated block): the call does not return.
\<close>

datatype error = ERESTARTSYS | ENOMEM | EFAULT | Trap_divide | Trap_bounds

record result =
  retval :: "error + int"
  new_pos :: int
  new_dev :: scull_dev
  new_nalloc :: nat
  copied :: string

definition ret :: "error + int \<Rightarrow> int \<Rightarrow> scull_dev \<Rightarrow> nat \<Rightarrow> string \<Rightarrow> result" where
  "ret v p d c out = \<lparr>retval = v, new_pos = p, new_dev = d, new_nalloc = c, copied = out\<rparr>"

subsection \<open>scull_trim\<close>

text \<open>
  The loop of \<^verbatim>\<open>scull_trim\<close> walks the chain and frees, for each node, every buffer
  of its array (when it has an array), the array and the node. \<open>trim_loop\<close>
  returns the number of blocks handed back to the allocator (\<^verbatim>\<open>kfree(NULL)\<close> does
  nothing), or \<open>None\<close> when the loop reads \<^verbatim>\<open>dptr->data[i]\<close> outside the array.
  The constants \<^verbatim>\<open>SCULL_QUANTUM\<close> and \<^verbatim>\<open>SCULL_QSET\<close> of the missing \<^verbatim>\<open>scull.h\<close> are
  parameters of \<open>scull_trim\<close>.
\<close>

definition free_qset :: "int \<Rightarrow> scull_qset \<Rightarrow> nat option" where
  "free_qset n dptr =
     (case qs_data dptr of
        None \<Rightarrow> Some 1
      | Some slots \<Rightarrow>
          if int (length slots) < n then None
          else Some (length (filter (\<lambda>s. s \<noteq> None) (take (nat n) slots)) + 2))"

fun trim_loop :: "int \<Rightarrow> scull_qset list \<Rightarrow> nat option" where
  "trim_loop n [] = Some 0"
| "trim_loop n (dptr # next) =
     (case free_qset n dptr of
        None \<Rightarrow> None
      | Some k \<Rightarrow> (case trim_loop n next of None \<Rightarrow> None | Some m \<Rightarrow> Some (k + m)))"

definition scull_trim :: "int \<Rightarrow> int \<Rightarrow> scull_dev \<Rightarrow> error + scull_dev" where
  "scull_trim SCULL_QUANTUM SCULL_QSET dev =
     (case trim_loop (qset dev) (data dev) of
        None \<Rightarrow> Inl Trap_bounds
      | Some freed \<Rightarrow>
          Inr (dev\<lparr>size := 0, quantum := SCULL_QUANTUM, qset := SCULL_QSET, data := []\<rparr>))"

subsection \<open>scull_follow\<close>

text \<open>
  \<open>follow_next K c ch qs n\<close> is the loop \<^verbatim>\<open>while (n--)\<close>: \<open>qs\<close> is the index in the
  chain \<open>ch\<close> of the node the C pointer \<^verbatim>\<open>qs\<close> points to and \<open>n\<close> the number of
  iterations left. \<^verbatim>\<open>qs->next\<close> is NULL exactly when \<open>qs\<close> is the last node; a new
  node is cleared by \<^verbatim>\<open>memset\<close> and linked at the end. When \<^verbatim>\<open>kmalloc\<close> fails the
  function returns NULL and the nodes linked so far stay.
  A 32-bit \<^verbatim>\<open>int n\<close> that is decremented until it is zero makes \<open>n mod 2 ^ 32\<close>
  iterations.
\<close>

fun follow_next ::
  "kmem \<Rightarrow> nat \<Rightarrow> scull_qset list \<Rightarrow> nat \<Rightarrow> nat \<Rightarrow> nat option \<times> scull_qset list \<times> nat" where
  "follow_next K c ch qs 0 = (Some qs, ch, c)"
| "follow_next K c ch qs (Suc n) =
     (if Suc qs < length ch then follow_next K c ch (Suc qs) n
      else if fails K c then (None, ch, Suc c)
      else follow_next K (Suc c) (ch @ [empty_qset]) (Suc qs) n)"

definition scull_follow ::
  "kmem \<Rightarrow> nat \<Rightarrow> scull_dev \<Rightarrow> int \<Rightarrow> nat option \<times> scull_dev \<times> nat" where
  "scull_follow K c dev n =
     (if data dev = [] then
        (if fails K c then (None, dev, Suc c)
         else (case follow_next K (Suc c) [empty_qset] 0 (nat (n mod 2 ^ 32)) of
                 (qs, ch, c') \<Rightarrow> (qs, dev\<lparr>data := ch\<rparr>, c')))
      else (case follow_next K c (data dev) 0 (nat (n mod 2 ^ 32)) of
              (qs, ch, c') \<Rightarrow> (qs, dev\<lparr>data := ch\<rparr>, c')))"

subsection \<open>Offset translation\<close>

text \<open>
  Lines 111 and 124--127 of \<^verbatim>\<open>scull_read\<close>, the same as lines 156 and 163--166 of
  \<^verbatim>\<open>scull_write\<close>:
  \<^verbatim>\<open>
    int itemsize = quantum * qset;
    item = (long)*f_pos / itemsize;
    rest = (long)*f_pos % itemsize;
    s_pos = rest / quantum; q_pos = rest % quantum;
  \<close>
  All five variables are \<^verbatim>\<open>int\<close>. The division traps when \<^verbatim>\<open>itemsize\<close> is 0 and
  when the quotient does not fit in 64 bits.
\<close>

definition translate :: "int \<Rightarrow> int \<Rightarrow> int \<Rightarrow> error + int \<times> int \<times> int" where
  "translate Q S f_pos =
     (let itemsize = s32 (Q * S) in
      if itemsize = 0 \<or> (f_pos = - (2 ^ 63) \<and> itemsize = - 1) then Inl Trap_divide
      else
        let item = s32 (f_pos sdiv itemsize);
            rest = s32 (f_pos smod itemsize);
            s_pos = rest sdiv Q;
            q_pos = rest smod Q
        in Inr (item, s_pos, q_pos))"

subsection \<open>scull_read\<close>

text \<open>
  Lines 135--144 of \<^verbatim>\<open>scull_read\<close>, once the buffer \<open>q\<close> of the slot is known: clamp
  \<^verbatim>\<open>count\<close> to the end of the quantum, copy to user space, advance \<^verbatim>\<open>*f_pos\<close>.
  \<open>ucap\<close> is the number of bytes that can be written at the user address \<^verbatim>\<open>buf\<close>:
  \<^verbatim>\<open>copy_to_user\<close> of \<open>n\<close> bytes succeeds exactly when \<open>n \<le> ucap\<close>. Reading past
  the end of the buffer is a trap.
\<close>

definition read_quantum ::
  "scull_dev \<Rightarrow> nat \<Rightarrow> string \<Rightarrow> int \<Rightarrow> nat \<Rightarrow> int \<Rightarrow> int \<Rightarrow> result" where
  "read_quantum dev c q q_pos ucap count f_pos =
     (let count2 = (if count > u64 (s32 (quantum dev - q_pos))
                    then u64 (s32 (quantum dev - q_pos)) else count) in
      if q_pos < 0 \<or> int (length q) < q_pos + count2 then ret (Inl Trap_bounds) f_pos dev c []
      else if int ucap < count2 then ret (Inl EFAULT) f_pos dev c []
      else ret (Inr (s64 count2)) (s64 (f_pos + count2)) dev c
             (take (nat count2) (drop (nat q_pos) q)))"

text \<open>
  \<open>scull_read K intr c dev ucap count f_pos\<close>: \<open>intr\<close> tells whether the wait for
  the semaphore is interrupted, \<open>c\<close> is the number of \<^verbatim>\<open>kmalloc\<close> calls so far,
  \<open>count\<close> and \<open>f_pos\<close> are the arguments of the call. The result holds the return
  value, the new \<^verbatim>\<open>*f_pos\<close>, the new device and the bytes copied to user space by
  a call that succeeds. Reading \<^verbatim>\<open>dptr->data[s_pos]\<close> outside the array is a trap.
\<close>

definition scull_read ::
  "kmem \<Rightarrow> bool \<Rightarrow> nat \<Rightarrow> scull_dev \<Rightarrow> nat \<Rightarrow> int \<Rightarrow> int \<Rightarrow> result" where
  "scull_read K intr c dev ucap count f_pos =
     (if intr then ret (Inl ERESTARTSYS) f_pos dev c []
      else if u64 f_pos \<ge> size dev then ret (Inr 0) f_pos dev c []
      else
        let count1 = (if u64 (f_pos + count) > size dev then u64 (size dev - f_pos) else count) in
        case translate (quantum dev) (qset dev) f_pos of
          Inl e \<Rightarrow> ret (Inl e) f_pos dev c []
        | Inr (item, s_pos, q_pos) \<Rightarrow>
            (case scull_follow K c dev item of
               (None, dev1, c1) \<Rightarrow> ret (Inr 0) f_pos dev1 c1 []
             | (Some i, dev1, c1) \<Rightarrow>
                 (case qs_data (data dev1 ! i) of
                    None \<Rightarrow> ret (Inr 0) f_pos dev1 c1 []
                  | Some slots \<Rightarrow>
                      if s_pos < 0 \<or> int (length slots) \<le> s_pos
                      then ret (Inl Trap_bounds) f_pos dev1 c1 []
                      else
                        (case slots ! nat s_pos of
                           None \<Rightarrow> ret (Inr 0) f_pos dev1 c1 []
                         | Some q \<Rightarrow> read_quantum dev1 c1 q q_pos ucap count1 f_pos))))"

subsection \<open>scull_write\<close>

text \<open>
  \<open>set_data dev i slots\<close> stores the array \<open>slots\<close> in node \<open>i\<close>;
  \<open>poke q off bs\<close> overwrites the bytes of \<open>q\<close> from offset \<open>off\<close> with \<open>bs\<close>.
\<close>

definition set_data :: "scull_dev \<Rightarrow> nat \<Rightarrow> string option list \<Rightarrow> scull_dev" where
  "set_data dev i slots = dev\<lparr>data := (data dev)[i := (data dev ! i)\<lparr>qs_data := Some slots\<rparr>]\<rparr>"

definition poke :: "string \<Rightarrow> nat \<Rightarrow> string \<Rightarrow> string" where
  "poke q off bs = take off q @ bs @ drop (off + length bs) q"

text \<open>
  \<^verbatim>\<open>copy_from_user(to, from, n)\<close> with \<open>ubuf\<close> the bytes readable at the user address
  \<^verbatim>\<open>from\<close>: it succeeds when \<open>n \<le> length ubuf\<close>; otherwise it copies what is
  readable, clears the rest of the \<open>n\<close> bytes and reports the failure.
\<close>

definition copy_from_user :: "string \<Rightarrow> nat \<Rightarrow> string \<times> bool" where
  "copy_from_user ubuf n =
     (if n \<le> length ubuf then (take n ubuf, True)
      else (ubuf @ replicate (n - length ubuf) (CHR 0x00), False))"

text \<open>
  Lines 172--176: the array of the node, allocated and cleared when the node has
  none. Lines 178--181: the buffer of the slot, allocated (and not cleared) when
  the slot is empty. Both return \<open>None\<close> when \<^verbatim>\<open>kmalloc\<close> fails; a negative
  \<^verbatim>\<open>int\<close> is a size above \<open>2 ^ 63\<close> as a \<^verbatim>\<open>size_t\<close>, which \<^verbatim>\<open>kmalloc\<close> always refuses.
\<close>

definition alloc_slots ::
  "kmem \<Rightarrow> nat \<Rightarrow> int \<Rightarrow> scull_qset \<Rightarrow> (string option list \<times> nat) option" where
  "alloc_slots K c S dptr =
     (case qs_data dptr of
        Some slots \<Rightarrow> Some (slots, c)
      | None \<Rightarrow> if fails K c \<or> S < 0 then None else Some (replicate (nat S) None, Suc c))"

definition alloc_quantum ::
  "kmem \<Rightarrow> nat \<Rightarrow> int \<Rightarrow> string option \<Rightarrow> (string \<times> nat) option" where
  "alloc_quantum K c Q slot =
     (case slot of
        Some q \<Rightarrow> Some (q, c)
      | None \<Rightarrow> if fails K c \<or> Q < 0 then None
                else Some (map (junk K c) [0..<nat Q], Suc c))"

text \<open>
  Lines 184--196, once the buffer \<open>q\<close> of slot \<open>s\<close> in the array \<open>slots\<close> of node \<open>i\<close>
  is there: clamp \<^verbatim>\<open>count\<close> to the end of the quantum, copy from user space,
  advance \<^verbatim>\<open>*f_pos\<close>, update \<^verbatim>\<open>size\<close>. Writing past the end of the buffer is a trap.
\<close>

definition write_quantum ::
  "scull_dev \<Rightarrow> nat \<Rightarrow> nat \<Rightarrow> string option list \<Rightarrow> nat \<Rightarrow> string \<Rightarrow> int \<Rightarrow>
     string \<Rightarrow> int \<Rightarrow> int \<Rightarrow> result" where
  "write_quantum dev c i slots s q q_pos ubuf count f_pos =
     (let count1 = (if count > u64 (s32 (quantum dev - q_pos))
                    then u64 (s32 (quantum dev - q_pos)) else count) in
      if q_pos < 0 \<or> int (length q) < q_pos + count1
      then ret (Inl Trap_bounds) f_pos (set_data dev i (slots[s := Some q])) c []
      else
        (case copy_from_user ubuf (nat count1) of
           (bs, ok) \<Rightarrow>
             let dev' = set_data dev i (slots[s := Some (poke q (nat q_pos) bs)]) in
             if \<not> ok then ret (Inl EFAULT) f_pos dev' c []
             else
               let f_pos' = s64 (f_pos + count1) in
               ret (Inr (s64 count1)) f_pos'
                 (if size dev' < u64 f_pos' then dev'\<lparr>size := u64 f_pos'\<rparr> else dev') c []))"

text \<open>
  \<open>scull_write K intr c dev ubuf count f_pos\<close>, with \<open>ubuf\<close> the bytes readable at
  the user address \<^verbatim>\<open>buf\<close>. \<^verbatim>\<open>retval\<close> starts as \<^verbatim>\<open>-ENOMEM\<close>, the value of every
  \<^verbatim>\<open>goto out\<close> before the copy.
\<close>

definition scull_write ::
  "kmem \<Rightarrow> bool \<Rightarrow> nat \<Rightarrow> scull_dev \<Rightarrow> string \<Rightarrow> int \<Rightarrow> int \<Rightarrow> result" where
  "scull_write K intr c dev ubuf count f_pos =
     (if intr then ret (Inl ERESTARTSYS) f_pos dev c []
      else
        case translate (quantum dev) (qset dev) f_pos of
          Inl e \<Rightarrow> ret (Inl e) f_pos dev c []
        | Inr (item, s_pos, q_pos) \<Rightarrow>
            (case scull_follow K c dev item of
               (None, dev1, c1) \<Rightarrow> ret (Inl ENOMEM) f_pos dev1 c1 []
             | (Some i, dev1, c1) \<Rightarrow>
                 (case alloc_slots K c1 (qset dev) (data dev1 ! i) of
                    None \<Rightarrow> ret (Inl ENOMEM) f_pos dev1 (Suc c1) []
                  | Some (slots, c2) \<Rightarrow>
                      if s_pos < 0 \<or> int (length slots) \<le> s_pos
                      then ret (Inl Trap_bounds) f_pos (set_data dev1 i slots) c2 []
                      else
                        (case alloc_quantum K c2 (quantum dev) (slots ! nat s_pos) of
                           None \<Rightarrow> ret (Inl ENOMEM) f_pos (set_data dev1 i slots) (Suc c2) []
                         | Some (q, c3) \<Rightarrow>
                             write_quantum dev1 c3 i slots (nat s_pos) q q_pos ubuf count f_pos))))"

subsection \<open>Well-formed devices and calls\<close>

text \<open>
  The invariant of the representation: \<^verbatim>\<open>quantum\<close> and \<^verbatim>\<open>qset\<close> are positive and
  their product is an \<^verbatim>\<open>int\<close>, \<^verbatim>\<open>size\<close> is an unsigned 64-bit value, every array of
  the chain has \<^verbatim>\<open>qset\<close> entries and every buffer \<^verbatim>\<open>quantum\<close> bytes.
\<close>

definition slot_ok :: "int \<Rightarrow> string option \<Rightarrow> bool" where
  "slot_ok Q slot = (case slot of None \<Rightarrow> True | Some q \<Rightarrow> int (length q) = Q)"

definition qset_ok :: "int \<Rightarrow> int \<Rightarrow> scull_qset \<Rightarrow> bool" where
  "qset_ok Q S dptr =
     (case qs_data dptr of
        None \<Rightarrow> True
      | Some slots \<Rightarrow> int (length slots) = S \<and> list_all (slot_ok Q) slots)"

definition params_ok :: "int \<Rightarrow> int \<Rightarrow> bool" where
  "params_ok Q S = (0 < Q \<and> 0 < S \<and> Q * S < 2 ^ 31)"

definition dev_ok :: "scull_dev \<Rightarrow> bool" where
  "dev_ok dev =
     (params_ok (quantum dev) (qset dev) \<and> 0 \<le> size dev \<and> size dev < 2 ^ 64 \<and>
      list_all (qset_ok (quantum dev) (qset dev)) (data dev))"

text \<open>
  The arguments the kernel passes to \<^verbatim>\<open>read\<close> and \<^verbatim>\<open>write\<close>: the position is not
  negative and the end of the transfer is a \<^verbatim>\<open>loff_t\<close>.
\<close>

definition args_ok :: "int \<Rightarrow> int \<Rightarrow> bool" where
  "args_ok count f_pos = (0 \<le> f_pos \<and> 0 \<le> count \<and> f_pos + count < 2 ^ 63)"

text \<open>The buffer of slot \<open>s\<close> of node \<open>i\<close>, when the node, its array and the buffer exist.\<close>

definition quantum_at :: "scull_dev \<Rightarrow> nat \<Rightarrow> nat \<Rightarrow> string option" where
  "quantum_at dev i s =
     (if i < length (data dev) then
        (case qs_data (data dev ! i) of
           None \<Rightarrow> None
         | Some slots \<Rightarrow> if s < length slots then slots ! s else None)
      else None)"

text \<open>The byte stored for position \<open>p\<close>, with the indices that lines 124--127 compute.\<close>

definition byte_at :: "scull_dev \<Rightarrow> int \<Rightarrow> char option" where
  "byte_at dev p =
     (case quantum_at dev (nat (p div (quantum dev * qset dev)))
             (nat (p mod (quantum dev * qset dev) div quantum dev)) of
        None \<Rightarrow> None
      | Some q \<Rightarrow> Some (q ! nat (p mod (quantum dev * qset dev) mod quantum dev)))"

text \<open>The device holds the bytes \<open>bs\<close> at the positions \<open>0, \<dots>, length bs - 1\<close>.\<close>

definition stored :: "scull_dev \<Rightarrow> string \<Rightarrow> bool" where
  "stored dev bs = list_all (\<lambda>x. byte_at dev (int x) = Some (bs ! x)) [0..<length bs]"

text \<open>
  The node and the slot a call at position \<open>f_pos\<close> goes to: \<^verbatim>\<open>scull_follow\<close> makes
  \<open>item mod 2 ^ 32\<close> steps from the head, then the code indexes the array with
  \<^verbatim>\<open>s_pos\<close>.
\<close>

definition target :: "scull_dev \<Rightarrow> int \<Rightarrow> (nat \<times> nat) option" where
  "target dev f_pos =
     (case translate (quantum dev) (qset dev) f_pos of
        Inl e \<Rightarrow> None
      | Inr (item, s_pos, q_pos) \<Rightarrow> Some (nat (item mod 2 ^ 32), nat s_pos))"

subsection \<open>Callers\<close>

text \<open>
  A caller that writes a byte sequence from position \<open>p\<close> on: it calls
  \<^verbatim>\<open>write\<close> with what is left, at the position the last call returned, until
  nothing is left, and gives up (\<open>None\<close>) when a call fails or accepts nothing.
  It returns the list of return values, the device, the number of allocations
  and the position.
\<close>

function write_all ::
  "kmem \<Rightarrow> nat \<Rightarrow> scull_dev \<Rightarrow> string \<Rightarrow> int \<Rightarrow> (int list \<times> scull_dev \<times> nat \<times> int) option" where
  "write_all K c dev buf p =
     (if buf = [] then Some ([], dev, c, p)
      else
        (case retval (scull_write K False c dev buf (int (length buf)) p) of
           Inl e \<Rightarrow> None
         | Inr n \<Rightarrow>
             if n \<le> 0 \<or> int (length buf) < n then None
             else
               (case write_all K (new_nalloc (scull_write K False c dev buf (int (length buf)) p))
                       (new_dev (scull_write K False c dev buf (int (length buf)) p))
                       (drop (nat n) buf)
                       (new_pos (scull_write K False c dev buf (int (length buf)) p)) of
                  None \<Rightarrow> None
                | Some (ns, x) \<Rightarrow> Some (n # ns, x))))"
  by pat_completeness auto
termination
  by (relation "measure (\<lambda>(K, c, dev, buf, p). length buf)") auto

text \<open>
  A caller that reads \<open>n\<close> bytes from position \<open>p\<close> on into a buffer of \<open>n\<close> bytes:
  it calls \<^verbatim>\<open>read\<close> for what is missing until it has \<open>n\<close> bytes, and gives up when
  a call fails or returns nothing.
\<close>

function read_all :: "kmem \<Rightarrow> nat \<Rightarrow> scull_dev \<Rightarrow> int \<Rightarrow> int \<Rightarrow> string option" where
  "read_all K c dev n p =
     (if n \<le> 0 then Some []
      else
        (case retval (scull_read K False c dev (nat n) n p) of
           Inl e \<Rightarrow> None
         | Inr k \<Rightarrow>
             if k \<le> 0 \<or> n < k then None
             else
               (case read_all K (new_nalloc (scull_read K False c dev (nat n) n p))
                       (new_dev (scull_read K False c dev (nat n) n p))
                       (n - k)
                       (new_pos (scull_read K False c dev (nat n) n p)) of
                  None \<Rightarrow> None
                | Some bs \<Rightarrow> Some (copied (scull_read K False c dev (nat n) n p) @ bs))))"
  by pat_completeness auto
termination
  by (relation "measure (\<lambda>(K, c, dev, n, p). nat n)") auto

declare write_all.simps [simp del] read_all.simps [simp del]

text \<open>
  Writing \<open>bs\<close> to a fresh device with parameters \<open>Q\<close> and \<open>S\<close> from position 0
  and reading \<open>length bs\<close> bytes back from position 0 gives \<open>bs\<close>.
\<close>

definition round_trip :: "kmem \<Rightarrow> int \<Rightarrow> int \<Rightarrow> string \<Rightarrow> bool" where
  "round_trip K Q S bs =
     (case write_all K 0 (scull_init Q S) bs 0 of
        None \<Rightarrow> False
      | Some (ns, dev, c, p) \<Rightarrow> read_all K c dev (int (length bs)) 0 = Some bs)"

subsection \<open>Histories\<close>

text \<open>
  The operations on one device, with their arguments, and the state a history
  of operations leads to. Beside the device and the allocation count the state
  records, since the last trim, the number of bytes that successful writes have
  transferred (\<open>written\<close>) and the largest end position \<^verbatim>\<open>*f_pos + count\<close> of a
  successful write (\<open>high\<close>). A trap ends the history: \<open>None\<close>.
\<close>

datatype op =
    Read bool nat int int
  | Write bool string int int
  | Trim

record history =
  h_dev :: scull_dev
  h_nalloc :: nat
  written :: int
  high :: int

definition is_trap :: "error + int \<Rightarrow> bool" where
  "is_trap v = (v = Inl Trap_divide \<or> v = Inl Trap_bounds)"

fun step :: "kmem \<Rightarrow> int \<Rightarrow> int \<Rightarrow> history \<Rightarrow> op \<Rightarrow> history option" where
  "step K SQ SS h (Read intr ucap count f_pos) =
     (let r = scull_read K intr (h_nalloc h) (h_dev h) ucap count f_pos in
      if is_trap (retval r) then None
      else Some (h\<lparr>h_dev := new_dev r, h_nalloc := new_nalloc r\<rparr>))"
| "step K SQ SS h (Write intr ubuf count f_pos) =
     (let r = scull_write K intr (h_nalloc h) (h_dev h) ubuf count f_pos in
      case retval r of
        Inl e \<Rightarrow> if is_trap (Inl e) then None
                 else Some (h\<lparr>h_dev := new_dev r, h_nalloc := new_nalloc r\<rparr>)
      | Inr n \<Rightarrow> Some (h\<lparr>h_dev := new_dev r, h_nalloc := new_nalloc r,
                          written := written h + n, high := max (high h) (f_pos + n)\<rparr>))"
| "step K SQ SS h Trim =
     (case scull_trim SQ SS (h_dev h) of
        Inl e \<Rightarrow> None
      | Inr dev \<Rightarrow> Some (h\<lparr>h_dev := dev, written := 0, high := 0\<rparr>))"

fun run :: "kmem \<Rightarrow> int \<Rightarrow> int \<Rightarrow> history \<Rightarrow> op list \<Rightarrow> history option" where
  "run K SQ SS h [] = Some h"
| "run K SQ SS h (x # xs) =
     (case step K SQ SS h x of None \<Rightarrow> None | Some h' \<Rightarrow> run K SQ SS h' xs)"



definition start :: "int \<Rightarrow> int \<Rightarrow> history" where
  "start Q S = \<lparr>h_dev = scull_init Q S, h_nalloc = 0, written = 0, high = 0\<rparr>"

definition op_ok :: "op \<Rightarrow> bool" where
  "op_ok x =
     (case x of
        Read intr ucap count f_pos \<Rightarrow> args_ok count f_pos
      | Write intr ubuf count f_pos \<Rightarrow> args_ok count f_pos
      | Trim \<Rightarrow> True)"

subsection \<open>Test data\<close>

text \<open>
  An allocator that never fails and returns blocks filled with \<open>?\<close>, and a device
  with two nodes: the first holds one buffer, the second has no array.
\<close>

definition kmem_ok :: kmem where
  "kmem_ok = \<lparr>fails = (\<lambda>k. False), junk = (\<lambda>k j. CHR ''?'')\<rparr>"

definition dev_ab :: scull_dev where
  "dev_ab = \<lparr>data = [\<lparr>qs_data = Some [Some ''ABCD'', None]\<rparr>, \<lparr>qs_data = None\<rparr>],
             quantum = 4, qset = 2, size = 4\<rparr>"

section \<open>Properties\<close>

subsection \<open>Arithmetic in range\<close>

lemma s32_id: "- (2 ^ 31) \<le> x \<Longrightarrow> x < 2 ^ 31 \<Longrightarrow> s32 x = x"
  by (simp add: s32_def)

lemma s64_id: "- (2 ^ 63) \<le> x \<Longrightarrow> x < 2 ^ 63 \<Longrightarrow> s64 x = x"
  by (simp add: s64_def)

lemma u64_id: "0 \<le> x \<Longrightarrow> x < 2 ^ 64 \<Longrightarrow> u64 x = x"
  by (simp add: u64_def)

lemma sdiv_nonneg: "0 \<le> a \<Longrightarrow> 0 < b \<Longrightarrow> (a::int) sdiv b = a div b"
  by (simp add: signed_divide_int_def sgn_if)

lemma smod_nonneg: "0 \<le> a \<Longrightarrow> 0 < b \<Longrightarrow> (a::int) smod b = a mod b"
  by (simp add: signed_modulo_int_def sgn_if)

lemma s64_zero_add: "s64 a = 0 \<Longrightarrow> s64 (p + a) = s64 p"
proof -
  assume "s64 a = 0"
  then have "(a + 2 ^ 63) mod 2 ^ 64 = (2 ^ 63 :: int)"
    by (simp add: s64_def)
  then have "(a + 2 ^ 63 - 2 ^ 63) mod 2 ^ 64 = ((2 ^ 63 :: int) - 2 ^ 63) mod 2 ^ 64"
    by (metis mod_diff_left_eq)
  then have "a mod 2 ^ 64 = 0" by simp
  then have "(p + 2 ^ 63 + a) mod 2 ^ 64 = (p + 2 ^ 63) mod 2 ^ 64"
    by (metis add.right_neutral mod_add_right_eq)
  then show ?thesis by (simp add: s64_def algebra_simps)
qed

text \<open>In range, the C code computes the indices with the mathematical quotients.\<close>

lemma translate_ok:
  assumes "params_ok Q S" "0 \<le> p" "p < 2 ^ 63"
  shows "translate Q S p = Inr (s32 (p div (Q * S)), p mod (Q * S) div Q, p mod (Q * S) mod Q)"
proof -
  from assms have Q: "0 < Q" and S: "0 < S" and QS: "Q * S < 2 ^ 31"
    by (simp_all add: params_ok_def)
  have pos: "0 < Q * S" using Q S by simp
  have item: "s32 (Q * S) = Q * S" using pos QS by (simp add: s32_id)
  have r0: "0 \<le> p mod (Q * S)" and r1: "p mod (Q * S) < Q * S"
    using pos by simp_all
  have rest: "s32 (p mod (Q * S)) = p mod (Q * S)"
    using r0 r1 QS by (simp add: s32_id)
  show ?thesis
    using pos assms(2) r0 Q S
    by (simp add: translate_def item Let_def sdiv_nonneg smod_nonneg rest)
qed

subsection \<open>Offset translation\<close>

text \<open>
  Claim C2, as amended. For every offset that is not negative and all positive
  \<open>Q\<close> and \<open>S\<close> whose product is below \<open>2 ^ 31\<close>, when the node index
  \<open>offset div (Q * S)\<close> is below \<open>2 ^ 31\<close>, the code computes
  \<open>node_index = offset div (Q * S)\<close>, \<open>slot_index = offset mod (Q * S) div Q\<close> and
  \<open>intra_offset = offset mod (Q * S) mod Q\<close>, and
  \<open>node_index * Q * S + slot_index * Q + intra_offset = offset\<close>.
\<close>

theorem translate_identity:
  assumes "0 \<le> offset" and "0 < Q" and "0 < S" and "Q * S < 2 ^ 31"
    and "offset div (Q * S) < 2 ^ 31"
  shows "translate Q S offset =
           Inr (offset div (Q * S), offset mod (Q * S) div Q, offset mod (Q * S) mod Q) \<and>
         offset div (Q * S) * Q * S + offset mod (Q * S) div Q * Q + offset mod (Q * S) mod Q
           = offset"
proof -
  have pos: "0 < Q * S" using assms by simp
  have "offset = offset div (Q * S) * (Q * S) + offset mod (Q * S)"
    by (rule div_mult_mod_eq [symmetric])
  moreover have "offset div (Q * S) * (Q * S) < 2 ^ 31 * (Q * S)"
    by (rule mult_strict_right_mono [OF assms(5) pos])
  ultimately have "offset < 2 ^ 31 * (Q * S) + Q * S"
    using pos_mod_bound [OF pos, of offset] by linarith
  also have "\<dots> \<le> 2 ^ 31 * 2 ^ 31 + 2 ^ 31"
    using assms(4) by simp
  finally have lt: "offset < 2 ^ 63" by simp
  have nn: "0 \<le> offset div (Q * S)"
    using assms(1) pos by (simp add: pos_imp_zdiv_nonneg_iff)
  have "translate Q S offset =
     Inr (offset div (Q * S), offset mod (Q * S) div Q, offset mod (Q * S) mod Q)"
    using translate_ok [of Q S offset] assms lt nn by (simp add: params_ok_def s32_id)
  moreover have "offset div (Q * S) * Q * S + offset mod (Q * S) div Q * Q
                   + offset mod (Q * S) mod Q = offset"
  proof -
    have "offset mod (Q * S) div Q * Q + offset mod (Q * S) mod Q = offset mod (Q * S)"
      by (rule div_mult_mod_eq)
    moreover have "offset div (Q * S) * (Q * S) + offset mod (Q * S) = offset"
      by (rule div_mult_mod_eq)
    moreover have "offset div (Q * S) * Q * S = offset div (Q * S) * (Q * S)"
      by (rule mult.assoc)
    ultimately show ?thesis by linarith
  qed
  ultimately show ?thesis by simp
qed

theorem translate_identity_witness:
  "translate 4 2 13 = Inr (1, 1, 1) \<and> (1::int) * 4 * 2 + 1 * 4 + 1 = 13"
  using translate_identity [of 13 4 2] by simp

text \<open>
  With \<open>Q = 4\<close>, \<open>S = 2\<close> and the offset \<open>2 ^ 35\<close> the quotient \<open>2 ^ 32\<close> is
  narrowed to the \<^verbatim>\<open>int\<close> 0, and the triple \<open>(0, 0, 0)\<close> does not give the offset
  back. With \<open>Q = S = 65536\<close> the product is 0 as an \<^verbatim>\<open>int\<close> and the division traps.
\<close>

theorem translate_identity_counterexample:
  "translate 4 2 (2 ^ 35) = Inr (0, 0, 0) \<and> (0::int) * 4 * 2 + 0 * 4 + 0 \<noteq> 2 ^ 35 \<and>
   translate 65536 65536 0 = Inl Trap_divide"
  by (simp add: translate_def s32_def signed_divide_int_def signed_modulo_int_def)

subsection \<open>Evaluation\<close>

lemmas scull_eval =
  scull_read_def scull_write_def translate_def scull_follow_def read_quantum_def
  write_quantum_def alloc_slots_def alloc_quantum_def copy_from_user_def set_data_def
  poke_def ret_def s32_def s64_def u64_def signed_divide_int_def signed_modulo_int_def
  scull_init_def empty_qset_def kmem_ok_def dev_ab_def Let_def

subsection \<open>scull_trim\<close>

lemma free_qset_ok: "qset_ok Q S dptr \<Longrightarrow> free_qset S dptr \<noteq> None"
  by (auto simp: qset_ok_def free_qset_def split: option.splits)

lemma trim_loop_ok: "list_all (qset_ok Q S) ch \<Longrightarrow> trim_loop S ch \<noteq> None"
proof (induction ch)
  case Nil
  show ?case by simp
next
  case (Cons dptr ch)
  from Cons.prems have "qset_ok Q S dptr" and "list_all (qset_ok Q S) ch"
    by simp_all
  then have "free_qset S dptr \<noteq> None" and "trim_loop S ch \<noteq> None"
    using Cons.IH by (simp_all add: free_qset_ok)
  then show ?case by auto
qed

text \<open>
  Claim C8. When every array of the chain has \<^verbatim>\<open>qset\<close> entries, \<^verbatim>\<open>scull_trim\<close>
  leaves the device of \<open>scull_init\<close>: an empty chain, \<^verbatim>\<open>size\<close> 0, and \<^verbatim>\<open>quantum\<close> and
  \<^verbatim>\<open>qset\<close> set to \<^verbatim>\<open>SCULL_QUANTUM\<close> and \<^verbatim>\<open>SCULL_QSET\<close>; trimming that device
  again gives the same device.
\<close>

theorem trim_resets:
  assumes "list_all (qset_ok Q (qset dev)) (data dev)"
  shows "scull_trim SQ SS dev = Inr (scull_init SQ SS) \<and>
         scull_trim SQ SS (scull_init SQ SS) = Inr (scull_init SQ SS)"
proof -
  obtain n where "trim_loop (qset dev) (data dev) = Some n"
    using trim_loop_ok [OF assms] by auto
  then have "scull_trim SQ SS dev = Inr (scull_init SQ SS)"
    by (simp add: scull_trim_def scull_init_def)
  moreover have "scull_trim SQ SS (scull_init SQ SS) = Inr (scull_init SQ SS)"
    by (simp add: scull_trim_def scull_init_def)
  ultimately show ?thesis by simp
qed

theorem trim_resets_witness:
  "list_all (qset_ok 4 (qset dev_ab)) (data dev_ab) \<and>
   scull_trim 4000 1000 dev_ab = Inr (scull_init 4000 1000) \<and>
   scull_trim 4000 1000 (scull_init 4000 1000) = Inr (scull_init 4000 1000)"
proof -
  have h: "list_all (qset_ok 4 (qset dev_ab)) (data dev_ab)"
    by (simp add: dev_ab_def qset_ok_def slot_ok_def)
  show ?thesis using h trim_resets [OF h, of 4000 1000] by simp
qed

subsection \<open>What a call leaves unchanged\<close>

lemma scull_follow_fields:
  "scull_follow K c dev n = (r, dev1, c1) \<Longrightarrow>
     size dev1 = size dev \<and> quantum dev1 = quantum dev \<and> qset dev1 = qset dev"
  by (auto simp: scull_follow_def split: if_splits prod.splits)

lemma read_quantum_fields:
  "new_dev (read_quantum dev c q q_pos ucap count f_pos) = dev"
  by (simp add: read_quantum_def ret_def Let_def)

lemma scull_read_fields:
  "size (new_dev (scull_read K intr c dev ucap count f_pos)) = size dev \<and>
   quantum (new_dev (scull_read K intr c dev ucap count f_pos)) = quantum dev \<and>
   qset (new_dev (scull_read K intr c dev ucap count f_pos)) = qset dev"
  by (auto simp: scull_read_def ret_def Let_def read_quantum_fields
      split: sum.splits prod.splits option.splits dest: scull_follow_fields)

lemma read_quantum_zero:
  assumes "- (2 ^ 63) \<le> f_pos" "f_pos < 2 ^ 63"
    and "retval (read_quantum dev c q q_pos ucap count f_pos) = Inr 0"
  shows "new_pos (read_quantum dev c q q_pos ucap count f_pos) = f_pos"
  using assms
  by (auto simp: read_quantum_def ret_def Let_def s64_zero_add s64_id split: if_splits)

text \<open>
  Claim C10. A call of \<^verbatim>\<open>scull_read\<close> that returns 0 leaves \<^verbatim>\<open>*f_pos\<close> and the
  \<^verbatim>\<open>size\<close> of the device as they were, whatever made it return 0.
\<close>

theorem read_zero_keeps_position:
  assumes "- (2 ^ 63) \<le> f_pos" and "f_pos < 2 ^ 63"
    and "retval (scull_read K intr c dev ucap count f_pos) = Inr 0"
  shows "new_pos (scull_read K intr c dev ucap count f_pos) = f_pos \<and>
         size (new_dev (scull_read K intr c dev ucap count f_pos)) = size dev"
proof -
  have "new_pos (scull_read K intr c dev ucap count f_pos) = f_pos"
    using assms(3) read_quantum_zero [OF assms(1,2)]
    by (auto simp: scull_read_def ret_def Let_def
        split: if_splits sum.splits prod.splits option.splits)
  then show ?thesis by (simp add: scull_read_fields)
qed

theorem read_zero_keeps_position_witness:
  "retval (scull_read kmem_ok False 0 dev_ab 3 3 4) = Inr 0 \<and>
   new_pos (scull_read kmem_ok False 0 dev_ab 3 3 4) = 4 \<and>
   size (new_dev (scull_read kmem_ok False 0 dev_ab 3 3 4)) = size dev_ab"
proof -
  have h: "retval (scull_read kmem_ok False 0 dev_ab 3 3 4) = Inr 0"
    by (simp add: scull_eval)
  show ?thesis using h read_zero_keeps_position [OF _ _ h] by simp
qed

lemma read_quantum_fault:
  "retval (read_quantum dev c q q_pos ucap count f_pos) = Inl EFAULT \<Longrightarrow>
   new_pos (read_quantum dev c q q_pos ucap count f_pos) = f_pos \<and>
   copied (read_quantum dev c q q_pos ucap count f_pos) = []"
  by (auto simp: read_quantum_def ret_def Let_def split: if_splits)

lemma set_data_fields:
  "size (set_data dev i slots) = size dev \<and> quantum (set_data dev i slots) = quantum dev \<and>
   qset (set_data dev i slots) = qset dev"
  by (simp add: set_data_def)

lemma write_quantum_error:
  "retval (write_quantum dev c i slots s q q_pos ubuf count f_pos) = Inl e \<Longrightarrow>
   new_pos (write_quantum dev c i slots s q q_pos ubuf count f_pos) = f_pos \<and>
   size (new_dev (write_quantum dev c i slots s q q_pos ubuf count f_pos)) = size dev"
  by (auto simp: write_quantum_def ret_def Let_def set_data_fields split: if_splits prod.splits)

lemma scull_write_cases:
  obtains
    (Intr) "intr" "scull_write K intr c dev ubuf count f_pos = ret (Inl ERESTARTSYS) f_pos dev c []"
  | (Trap) e where "\<not> intr" "translate (quantum dev) (qset dev) f_pos = Inl e"
      "scull_write K intr c dev ubuf count f_pos = ret (Inl e) f_pos dev c []"
  | (NoNode) item s_pos q_pos dev1 c1 where "\<not> intr"
      "translate (quantum dev) (qset dev) f_pos = Inr (item, s_pos, q_pos)"
      "scull_follow K c dev item = (None, dev1, c1)"
      "scull_write K intr c dev ubuf count f_pos = ret (Inl ENOMEM) f_pos dev1 c1 []"
  | (NoSlots) item s_pos q_pos i dev1 c1 where "\<not> intr"
      "translate (quantum dev) (qset dev) f_pos = Inr (item, s_pos, q_pos)"
      "scull_follow K c dev item = (Some i, dev1, c1)"
      "alloc_slots K c1 (qset dev) (data dev1 ! i) = None"
      "scull_write K intr c dev ubuf count f_pos = ret (Inl ENOMEM) f_pos dev1 (Suc c1) []"
  | (BadSlot) item s_pos q_pos i dev1 c1 slots c2 where "\<not> intr"
      "translate (quantum dev) (qset dev) f_pos = Inr (item, s_pos, q_pos)"
      "scull_follow K c dev item = (Some i, dev1, c1)"
      "alloc_slots K c1 (qset dev) (data dev1 ! i) = Some (slots, c2)"
      "s_pos < 0 \<or> int (length slots) \<le> s_pos"
      "scull_write K intr c dev ubuf count f_pos = ret (Inl Trap_bounds) f_pos (set_data dev1 i slots) c2 []"
  | (NoQuantum) item s_pos q_pos i dev1 c1 slots c2 where "\<not> intr"
      "translate (quantum dev) (qset dev) f_pos = Inr (item, s_pos, q_pos)"
      "scull_follow K c dev item = (Some i, dev1, c1)"
      "alloc_slots K c1 (qset dev) (data dev1 ! i) = Some (slots, c2)"
      "0 \<le> s_pos" "s_pos < int (length slots)"
      "alloc_quantum K c2 (quantum dev) (slots ! nat s_pos) = None"
      "scull_write K intr c dev ubuf count f_pos = ret (Inl ENOMEM) f_pos (set_data dev1 i slots) (Suc c2) []"
  | (Copy) item s_pos q_pos i dev1 c1 slots c2 q c3 where "\<not> intr"
      "translate (quantum dev) (qset dev) f_pos = Inr (item, s_pos, q_pos)"
      "scull_follow K c dev item = (Some i, dev1, c1)"
      "alloc_slots K c1 (qset dev) (data dev1 ! i) = Some (slots, c2)"
      "0 \<le> s_pos" "s_pos < int (length slots)"
      "alloc_quantum K c2 (quantum dev) (slots ! nat s_pos) = Some (q, c3)"
      "scull_write K intr c dev ubuf count f_pos = write_quantum dev1 c3 i slots (nat s_pos) q q_pos ubuf count f_pos"
proof (cases intr)
  case True
  then show ?thesis using Intr by (simp add: scull_write_def)
next
  case ni: False
  show ?thesis
  proof (cases "translate (quantum dev) (qset dev) f_pos")
    case (Inl e)
    then show ?thesis using ni Trap by (simp add: scull_write_def)
  next
    case (Inr t)
    obtain item s_pos q_pos where t: "t = (item, s_pos, q_pos)" by (cases t) auto
    obtain dptr dev1 c1 where f: "scull_follow K c dev item = (dptr, dev1, c1)"
      by (cases "scull_follow K c dev item") auto
    show ?thesis
    proof (cases dptr)
      case None
      then show ?thesis using ni Inr t f NoNode [of item s_pos q_pos dev1 c1]
        by (simp add: scull_write_def)
    next
      case (Some i)
      show ?thesis
      proof (cases "alloc_slots K c1 (qset dev) (data dev1 ! i)")
        case None
        then show ?thesis using ni Inr t f Some NoSlots [of item s_pos q_pos i dev1 c1]
          by (simp add: scull_write_def)
      next
        case sl: (Some sc)
        obtain slots c2 where sc: "sc = (slots, c2)" by (cases sc) auto
        show ?thesis
        proof (cases "s_pos < 0 \<or> int (length slots) \<le> s_pos")
          case True
          then show ?thesis
            using ni Inr t f Some sl sc BadSlot [of item s_pos q_pos i dev1 c1 slots c2]
            by (simp add: scull_write_def)
        next
          case inb: False
          show ?thesis
          proof (cases "alloc_quantum K c2 (quantum dev) (slots ! nat s_pos)")
            case None
            then show ?thesis
              using ni Inr t f Some sl sc inb
                NoQuantum [of item s_pos q_pos i dev1 c1 slots c2]
              by (simp add: scull_write_def)
          next
            case aq: (Some qc)
            obtain q c3 where qc: "qc = (q, c3)" by (cases qc) auto
            show ?thesis
              using ni Inr t f Some sl sc inb aq qc
                Copy [of item s_pos q_pos i dev1 c1 slots c2 q c3]
              by (simp add: scull_write_def)
          qed
        qed
      qed
    qed
  qed
qed

lemma scull_write_error:
  assumes "retval (scull_write K intr c dev ubuf count f_pos) = Inl e"
  shows "new_pos (scull_write K intr c dev ubuf count f_pos) = f_pos \<and>
         size (new_dev (scull_write K intr c dev ubuf count f_pos)) = size dev"
proof (cases rule: scull_write_cases [of intr K c dev ubuf count f_pos])
  case (Copy item s_pos q_pos i dev1 c1 slots c2 q c3)
  then show ?thesis
    using assms write_quantum_error [of dev1 c3 i slots "nat s_pos" q q_pos ubuf count f_pos e]
      scull_follow_fields [of K c dev item "Some i" dev1 c1]
    by simp
qed (auto simp: ret_def set_data_fields dest: scull_follow_fields)

lemma scull_read_fault:
  assumes "retval (scull_read K intr c dev ucap count f_pos) = Inl EFAULT"
  shows "new_pos (scull_read K intr c dev ucap count f_pos) = f_pos \<and>
         copied (scull_read K intr c dev ucap count f_pos) = []"
  using assms
  by (auto simp: scull_read_def ret_def Let_def
      split: if_splits sum.splits prod.splits option.splits dest: read_quantum_fault)

subsection \<open>scull_follow\<close>

lemma follow_next_chain:
  "follow_next K c ch qs n = (r, ch', c') \<Longrightarrow> \<exists>k. ch' = ch @ replicate k empty_qset"
proof (induction n arbitrary: c ch qs)
  case 0
  then show ?case by simp
next
  case (Suc n)
  show ?case
  proof (cases "Suc qs < length ch")
    case True
    then show ?thesis using Suc by simp
  next
    case False
    show ?thesis
    proof (cases "fails K c")
      case True
      then show ?thesis using Suc.prems False by simp
    next
      case nf: False
      then have "follow_next K (Suc c) (ch @ [empty_qset]) (Suc qs) n = (r, ch', c')"
        using Suc.prems False by simp
      then obtain k where "ch' = (ch @ [empty_qset]) @ replicate k empty_qset"
        using Suc.IH by blast
      then have "ch' = ch @ replicate (Suc k) empty_qset" by simp
      then show ?thesis by blast
    qed
  qed
qed

lemma follow_next_present:
  "qs + n < length ch \<Longrightarrow> follow_next K c ch qs n = (Some (qs + n), ch, c)"
  by (induction n arbitrary: qs) simp_all

lemma follow_next_Some:
  "follow_next K c ch qs n = (Some i, ch', c') \<Longrightarrow> qs < length ch \<Longrightarrow>
     i = qs + n \<and> i < length ch'"
proof (induction n arbitrary: c ch qs)
  case 0
  then show ?case by simp
next
  case (Suc n)
  show ?case
  proof (cases "Suc qs < length ch")
    case True
    then show ?thesis using Suc.prems Suc.IH [of c ch "Suc qs"] by simp
  next
    case False
    then have "\<not> fails K c" using Suc.prems by (auto split: if_splits)
    then show ?thesis
      using Suc.prems False Suc.IH [of "Suc c" "ch @ [empty_qset]" "Suc qs"] by simp
  qed
qed

lemma scull_follow_chain:
  assumes "scull_follow K c dev n = (r, dev1, c1)"
  shows "\<exists>k. dev1 = dev\<lparr>data := data dev @ replicate k empty_qset\<rparr>"
proof (cases "data dev = []")
  case True
  show ?thesis
  proof (cases "fails K c")
    case True
    then have "dev1 = dev\<lparr>data := data dev @ replicate 0 empty_qset\<rparr>"
      using assms \<open>data dev = []\<close> by (simp add: scull_follow_def)
    then show ?thesis by blast
  next
    case False
    obtain qs ch c' where f: "follow_next K (Suc c) [empty_qset] 0 (nat (n mod 2 ^ 32)) = (qs, ch, c')"
      by (metis prod_cases3)
    then obtain k where "ch = [empty_qset] @ replicate k empty_qset"
      using follow_next_chain by blast
    then have "ch = data dev @ replicate (Suc k) empty_qset" using True by simp
    moreover have "dev1 = dev\<lparr>data := ch\<rparr>"
      using assms True False f by (simp add: scull_follow_def)
    ultimately show ?thesis by blast
  qed
next
  case False
  obtain qs ch c' where f: "follow_next K c (data dev) 0 (nat (n mod 2 ^ 32)) = (qs, ch, c')"
    by (metis prod_cases3)
  then obtain k where "ch = data dev @ replicate k empty_qset"
    using follow_next_chain by blast
  moreover have "dev1 = dev\<lparr>data := ch\<rparr>"
    using assms False f by (simp add: scull_follow_def)
  ultimately show ?thesis by blast
qed

lemma scull_follow_Some:
  assumes "scull_follow K c dev n = (Some i, dev1, c1)"
  shows "i = nat (n mod 2 ^ 32) \<and> i < length (data dev1)"
proof (cases "data dev = []")
  case True
  then have nf: "\<not> fails K c" using assms by (auto simp: scull_follow_def split: if_splits)
  obtain qs ch c' where f: "follow_next K (Suc c) [empty_qset] 0 (nat (n mod 2 ^ 32)) = (qs, ch, c')"
    by (metis prod_cases3)
  then have "qs = Some i" "dev1 = dev\<lparr>data := ch\<rparr>"
    using assms True nf by (simp_all add: scull_follow_def)
  then show ?thesis using follow_next_Some [of K "Suc c" "[empty_qset]" 0 _ i ch c'] f by simp
next
  case False
  obtain qs ch c' where f: "follow_next K c (data dev) 0 (nat (n mod 2 ^ 32)) = (qs, ch, c')"
    by (metis prod_cases3)
  then have "qs = Some i" "dev1 = dev\<lparr>data := ch\<rparr>"
    using assms False by (simp_all add: scull_follow_def)
  then show ?thesis using follow_next_Some [of K c "data dev" 0 _ i ch c'] f False by simp
qed

lemma scull_follow_present:
  assumes "nat (n mod 2 ^ 32) < length (data dev)"
  shows "scull_follow K c dev n = (Some (nat (n mod 2 ^ 32)), dev, c)"
proof -
  have "data dev \<noteq> []" using assms by auto
  then show ?thesis
    using follow_next_present [of 0 "nat (n mod 2 ^ 32)" "data dev" K c] assms
    by (simp add: scull_follow_def)
qed

lemma scull_follow_new:
  assumes "scull_follow K c dev n = (Some i, dev1, c1)" and "length (data dev) \<le> i"
  shows "data dev1 ! i = empty_qset"
proof -
  obtain k where "dev1 = dev\<lparr>data := data dev @ replicate k empty_qset\<rparr>"
    using scull_follow_chain [OF assms(1)] by blast
  moreover have "i < length (data dev1)" using scull_follow_Some [OF assms(1)] by simp
  ultimately show ?thesis using assms(2) by (simp add: nth_append)
qed

lemma scull_follow_old:
  assumes "scull_follow K c dev n = (r, dev1, c1)" and "i < length (data dev)"
  shows "data dev1 ! i = data dev ! i"
proof -
  obtain k where "dev1 = dev\<lparr>data := data dev @ replicate k empty_qset\<rparr>"
    using scull_follow_chain [OF assms(1)] by blast
  then show ?thesis using assms(2) by (simp add: nth_append)
qed

lemma scull_read_cases:
  obtains
    (Intr) "intr" "scull_read K intr c dev ucap count f_pos = ret (Inl ERESTARTSYS) f_pos dev c []"
  | (Eof) "\<not> intr" "size dev \<le> u64 f_pos"
      "scull_read K intr c dev ucap count f_pos = ret (Inr 0) f_pos dev c []"
  | (Trap) e where "\<not> intr" "u64 f_pos < size dev"
      "translate (quantum dev) (qset dev) f_pos = Inl e"
      "scull_read K intr c dev ucap count f_pos = ret (Inl e) f_pos dev c []"
  | (NoNode) item s_pos q_pos dev1 c1 where "\<not> intr" "u64 f_pos < size dev"
      "translate (quantum dev) (qset dev) f_pos = Inr (item, s_pos, q_pos)"
      "scull_follow K c dev item = (None, dev1, c1)"
      "scull_read K intr c dev ucap count f_pos = ret (Inr 0) f_pos dev1 c1 []"
  | (NoSlots) item s_pos q_pos i dev1 c1 where "\<not> intr" "u64 f_pos < size dev"
      "translate (quantum dev) (qset dev) f_pos = Inr (item, s_pos, q_pos)"
      "scull_follow K c dev item = (Some i, dev1, c1)"
      "qs_data (data dev1 ! i) = None"
      "scull_read K intr c dev ucap count f_pos = ret (Inr 0) f_pos dev1 c1 []"
  | (BadSlot) item s_pos q_pos i dev1 c1 slots where "\<not> intr" "u64 f_pos < size dev"
      "translate (quantum dev) (qset dev) f_pos = Inr (item, s_pos, q_pos)"
      "scull_follow K c dev item = (Some i, dev1, c1)"
      "qs_data (data dev1 ! i) = Some slots"
      "s_pos < 0 \<or> int (length slots) \<le> s_pos"
      "scull_read K intr c dev ucap count f_pos = ret (Inl Trap_bounds) f_pos dev1 c1 []"
  | (NoQuantum) item s_pos q_pos i dev1 c1 slots where "\<not> intr" "u64 f_pos < size dev"
      "translate (quantum dev) (qset dev) f_pos = Inr (item, s_pos, q_pos)"
      "scull_follow K c dev item = (Some i, dev1, c1)"
      "qs_data (data dev1 ! i) = Some slots"
      "0 \<le> s_pos" "s_pos < int (length slots)"
      "slots ! nat s_pos = None"
      "scull_read K intr c dev ucap count f_pos = ret (Inr 0) f_pos dev1 c1 []"
  | (Copy) item s_pos q_pos i dev1 c1 slots q where "\<not> intr" "u64 f_pos < size dev"
      "translate (quantum dev) (qset dev) f_pos = Inr (item, s_pos, q_pos)"
      "scull_follow K c dev item = (Some i, dev1, c1)"
      "qs_data (data dev1 ! i) = Some slots"
      "0 \<le> s_pos" "s_pos < int (length slots)"
      "slots ! nat s_pos = Some q"
      "scull_read K intr c dev ucap count f_pos =
         read_quantum dev1 c1 q q_pos ucap
           (if u64 (f_pos + count) > size dev then u64 (size dev - f_pos) else count) f_pos"
proof (cases "intr \<or> size dev \<le> u64 f_pos")
  case True
  then show ?thesis using Intr Eof by (auto simp: scull_read_def)
next
  case go: False
  show ?thesis
  proof (cases "translate (quantum dev) (qset dev) f_pos")
    case (Inl e)
    then show ?thesis using go Trap by (simp add: scull_read_def)
  next
    case (Inr t)
    obtain item s_pos q_pos where t: "t = (item, s_pos, q_pos)" by (cases t) auto
    obtain dptr dev1 c1 where f: "scull_follow K c dev item = (dptr, dev1, c1)"
      by (cases "scull_follow K c dev item") auto
    show ?thesis
    proof (cases dptr)
      case None
      then show ?thesis using go Inr t f NoNode [of item s_pos q_pos dev1 c1]
        by (simp add: scull_read_def)
    next
      case (Some i)
      show ?thesis
      proof (cases "qs_data (data dev1 ! i)")
        case None
        then show ?thesis using go Inr t f Some NoSlots [of item s_pos q_pos i dev1 c1]
          by (simp add: scull_read_def)
      next
        case sl: (Some slots)
        show ?thesis
        proof (cases "s_pos < 0 \<or> int (length slots) \<le> s_pos")
          case True
          then show ?thesis
            using go Inr t f Some sl BadSlot [of item s_pos q_pos i dev1 c1 slots]
            by (simp add: scull_read_def)
        next
          case inb: False
          show ?thesis
          proof (cases "slots ! nat s_pos")
            case None
            then show ?thesis
              using go Inr t f Some sl inb NoQuantum [of item s_pos q_pos i dev1 c1 slots]
              by (simp add: scull_read_def)
          next
            case (Some q)
            then show ?thesis
              using go Inr t f \<open>dptr = Some i\<close> sl inb Copy [of item s_pos q_pos i dev1 c1 slots q]
              by (simp add: scull_read_def Let_def)
          qed
        qed
      qed
    qed
  qed
qed

subsection \<open>Holes\<close>

lemma s32_mod: "s32 x mod 2 ^ 32 = x mod 2 ^ 32"
proof -
  have "((x + 2 ^ 31) mod 2 ^ 32 - 2 ^ 31) mod 2 ^ 32 = (x + 2 ^ 31 - 2 ^ 31) mod (2 ^ 32 :: int)"
    by (rule mod_diff_left_eq)
  then show ?thesis by (simp add: s32_def)
qed

lemma slot_index_range:
  assumes "params_ok Q S" "0 \<le> p"
  shows "0 \<le> p mod (Q * S) div Q \<and> p mod (Q * S) div Q < S"
proof -
  from assms have Q: "0 < Q" and S: "0 < S" by (simp_all add: params_ok_def)
  have pos: "0 < Q * S" using Q S by simp
  have "0 \<le> p mod (Q * S)" and lt: "p mod (Q * S) < Q * S" using pos by simp_all
  then have "0 \<le> p mod (Q * S) div Q" using Q by (simp add: pos_imp_zdiv_nonneg_iff)
  moreover have "p mod (Q * S) div Q < S"
  proof -
    have a: "p mod (Q * S) div Q * Q + p mod (Q * S) mod Q = p mod (Q * S)"
      by (rule div_mult_mod_eq)
    have b: "0 \<le> p mod (Q * S) mod Q" using Q by simp
    have c: "Q * S = S * Q" by simp
    have "p mod (Q * S) div Q * Q < S * Q"
      using a b c lt by linarith
    then show ?thesis using Q by (simp add: mult_less_cancel_right_pos)
  qed
  ultimately show ?thesis by simp
qed

lemma target_ok:
  assumes "dev_ok dev" "0 \<le> p" "p < 2 ^ 63"
  shows "target dev p =
           Some (nat (p div (quantum dev * qset dev) mod 2 ^ 32),
                 nat (p mod (quantum dev * qset dev) div quantum dev))"
  using assms translate_ok [of "quantum dev" "qset dev" p]
  by (simp add: target_def dev_ok_def s32_mod [simplified])

lemma dev_ok_slots:
  assumes "dev_ok dev" "i < length (data dev)" "qs_data (data dev ! i) = Some slots"
  shows "int (length slots) = qset dev \<and> list_all (slot_ok (quantum dev)) slots"
proof -
  have "qset_ok (quantum dev) (qset dev) (data dev ! i)"
    using assms(1,2) by (simp add: dev_ok_def list_all_length)
  then show ?thesis using assms(3) by (simp add: qset_ok_def)
qed

lemma scull_follow_array:
  assumes "scull_follow K c dev n = (Some i, dev1, c1)" and "qs_data (data dev1 ! i) = Some slots"
  shows "i < length (data dev) \<and> qs_data (data dev ! i) = Some slots"
proof (cases "i < length (data dev)")
  case True
  then show ?thesis using scull_follow_old [OF assms(1) True] assms(2) by simp
next
  case False
  then have "data dev1 ! i = empty_qset" using scull_follow_new [OF assms(1)] by simp
  then show ?thesis using assms(2) by (simp add: empty_qset_def)
qed

text \<open>
  Claim C7. On a well-formed device, a read at a position \<open>f_pos < size\<close> whose
  target has no buffer (the node is missing, or it has no array, or the slot is
  empty: \<open>quantum_at\<close> is \<open>None\<close>) returns 0 and no error, when the semaphore is
  acquired.
\<close>

theorem hole_read_returns_zero:
  assumes "dev_ok dev" and "\<not> intr" and "0 \<le> f_pos" and "f_pos < 2 ^ 63"
    and "f_pos < size dev"
    and "target dev f_pos = Some (i, s)" and "quantum_at dev i s = None"
  shows "retval (scull_read K intr c dev ucap count f_pos) = Inr 0"
proof -
  let ?Q = "quantum dev" and ?S = "qset dev"
  have par: "params_ok ?Q ?S" using assms(1) by (simp add: dev_ok_def)
  have tr: "translate ?Q ?S f_pos =
      Inr (s32 (f_pos div (?Q * ?S)), f_pos mod (?Q * ?S) div ?Q, f_pos mod (?Q * ?S) mod ?Q)"
    using translate_ok [OF par assms(3,4)] .
  have i: "i = nat (s32 (f_pos div (?Q * ?S)) mod 2 ^ 32)"
    and s: "s = nat (f_pos mod (?Q * ?S) div ?Q)"
    using assms(6) tr by (simp_all add: target_def)
  have rng: "0 \<le> f_pos mod (?Q * ?S) div ?Q" "f_pos mod (?Q * ?S) div ?Q < ?S"
    using slot_index_range [OF par assms(3)] by simp_all
  show ?thesis
  proof (cases rule: scull_read_cases [of intr K c dev ucap count f_pos])
    case Intr
    then show ?thesis using assms(2) by simp
  next
    case Eof
    then show ?thesis by (simp add: ret_def)
  next
    case (Trap e)
    then show ?thesis using tr by simp
  next
    case (NoNode item s_pos q_pos dev1 c1)
    then show ?thesis by (simp add: ret_def)
  next
    case (NoSlots item s_pos q_pos j dev1 c1)
    then show ?thesis by (simp add: ret_def)
  next
    case (BadSlot item s_pos q_pos j dev1 c1 slots)
    have "j < length (data dev) \<and> qs_data (data dev ! j) = Some slots"
      using scull_follow_array [OF BadSlot(4,5)] .
    then have "int (length slots) = ?S" using dev_ok_slots [OF assms(1), of j slots] by simp
    then show ?thesis using BadSlot(3,6) tr rng by simp
  next
    case (NoQuantum item s_pos q_pos j dev1 c1 slots)
    then show ?thesis by (simp add: ret_def)
  next
    case (Copy item s_pos q_pos j dev1 c1 slots q)
    have j: "j < length (data dev) \<and> qs_data (data dev ! j) = Some slots"
      using scull_follow_array [OF Copy(4,5)] .
    have "j = i" using scull_follow_Some [OF Copy(4)] Copy(3) tr i by simp
    moreover have "nat s_pos = s" using Copy(3) tr s by simp
    ultimately have "quantum_at dev i s = Some q"
      using j Copy(6,7,8) by (simp add: quantum_at_def)
    then show ?thesis using assms(7) by simp
  qed
qed


theorem hole_read_returns_zero_witness:
  "dev_ok (dev_ab\<lparr>size := 30\<rparr>) \<and> target (dev_ab\<lparr>size := 30\<rparr>) 20 = Some (2, 1) \<and>
   quantum_at (dev_ab\<lparr>size := 30\<rparr>) 2 1 = None \<and>
   retval (scull_read kmem_ok False 0 (dev_ab\<lparr>size := 30\<rparr>) 3 3 20) = Inr 0"
proof -
  have ok: "dev_ok (dev_ab\<lparr>size := 30\<rparr>)"
    by (simp add: dev_ok_def params_ok_def qset_ok_def slot_ok_def dev_ab_def)
  have t: "target (dev_ab\<lparr>size := 30\<rparr>) 20 = Some (2, 1)"
    by (simp add: target_def scull_eval)
  have q: "quantum_at (dev_ab\<lparr>size := 30\<rparr>) 2 1 = None"
    by (simp add: quantum_at_def dev_ab_def)
  have "retval (scull_read kmem_ok False 0 (dev_ab\<lparr>size := 30\<rparr>) 3 3 20) = Inr 0"
    by (rule hole_read_returns_zero [OF ok _ _ _ _ t q]) (simp_all add: dev_ab_def)
  then show ?thesis using ok t q by simp
qed

subsection \<open>The paths of scull_write on a well-formed device\<close>

lemma quantum_at_extend:
  "quantum_at (dev\<lparr>data := data dev @ replicate k empty_qset\<rparr>) j t = quantum_at dev j t"
  by (simp add: quantum_at_def nth_append empty_qset_def)

lemma quantum_at_size [simp]:
  "quantum_at (dev\<lparr>size := n\<rparr>) j t = quantum_at dev j t"
  by (simp add: quantum_at_def)

lemma quantum_at_set_data:
  "i < length (data dev) \<Longrightarrow>
   quantum_at (set_data dev i slots) j t =
     (if j = i then (if t < length slots then slots ! t else None) else quantum_at dev j t)"
  by (simp add: quantum_at_def set_data_def)

lemma dev_ok_extend:
  "dev_ok dev \<Longrightarrow> dev_ok (dev\<lparr>data := data dev @ replicate k empty_qset\<rparr>)"
  by (auto simp: dev_ok_def qset_ok_def empty_qset_def list_all_iff)

lemma dev_ok_set_data:
  assumes "dev_ok dev" "i < length (data dev)" "int (length slots) = qset dev"
    "list_all (slot_ok (quantum dev)) slots"
  shows "dev_ok (set_data dev i slots)"
proof -
  have "qset_ok (quantum dev) (qset dev) ((data dev ! i)\<lparr>qs_data := Some slots\<rparr>)"
    using assms(3,4) by (simp add: qset_ok_def)
  moreover have "set ((data dev)[i := (data dev ! i)\<lparr>qs_data := Some slots\<rparr>])
      \<subseteq> insert ((data dev ! i)\<lparr>qs_data := Some slots\<rparr>) (set (data dev))"
    by (rule set_update_subset_insert)
  ultimately show ?thesis
    using assms(1) by (auto simp: dev_ok_def set_data_def list_all_iff)
qed

lemma slot_ok_update:
  "list_all (slot_ok Q) slots \<Longrightarrow> int (length q) = Q \<Longrightarrow>
   list_all (slot_ok Q) (slots[s := Some q])"
  using set_update_subset_insert [of slots s "Some q"]
  by (auto simp: list_all_iff slot_ok_def)

lemma offset_range:
  assumes "params_ok Q S"
  shows "0 \<le> p mod (Q * S) mod Q \<and> p mod (Q * S) mod Q < Q"
  using assms by (simp add: params_ok_def)

text \<open>
  The paths of \<^verbatim>\<open>scull_write\<close> on a well-formed device: the call fails with
  \<^verbatim>\<open>-ENOMEM\<close>, or it reaches the copy with the buffer of its target.
\<close>

lemma scull_write_reaches:
  assumes ok: "dev_ok dev" and ni: "\<not> intr" and p0: "0 \<le> f_pos" and p1: "f_pos < 2 ^ 63"
    and tg: "target dev f_pos = Some (i, s)"
  obtains
    (NoMem) "retval (scull_write K intr c dev ubuf count f_pos) = Inl ENOMEM"
  | (Copy) dev1 slots q c3 k where
      "dev1 = dev\<lparr>data := data dev @ replicate k empty_qset\<rparr>"
      "i < length (data dev1)"
      "int (length slots) = qset dev" "list_all (slot_ok (quantum dev)) slots"
      "s < length slots"
      "\<forall>t. quantum_at dev i t = (if t < length slots then slots ! t else None)"
      "int (length q) = quantum dev"
      "\<forall>q0. quantum_at dev i s = Some q0 \<longrightarrow> q = q0"
      "scull_write K intr c dev ubuf count f_pos =
         write_quantum dev1 c3 i slots s q
           (f_pos mod (quantum dev * qset dev) mod quantum dev) ubuf count f_pos"
proof -
  let ?Q = "quantum dev" and ?S = "qset dev"
  have par: "params_ok ?Q ?S" using ok by (simp add: dev_ok_def)
  have tr: "translate ?Q ?S f_pos =
      Inr (s32 (f_pos div (?Q * ?S)), f_pos mod (?Q * ?S) div ?Q, f_pos mod (?Q * ?S) mod ?Q)"
    using translate_ok [OF par p0 p1] .
  have i: "i = nat (s32 (f_pos div (?Q * ?S)) mod 2 ^ 32)"
    and s: "s = nat (f_pos mod (?Q * ?S) div ?Q)"
    using tg tr by (simp_all add: target_def)
  have rng: "0 \<le> f_pos mod (?Q * ?S) div ?Q" "f_pos mod (?Q * ?S) div ?Q < ?S"
    using slot_index_range [OF par p0] by simp_all
  show ?thesis
  proof (cases rule: scull_write_cases [of intr K c dev ubuf count f_pos])
    case Intr
    then show ?thesis using ni by simp
  next
    case (Trap e)
    then show ?thesis using tr by simp
  next
    case (NoNode item s_pos q_pos dev1 c1)
    then show ?thesis using NoMem by (simp add: ret_def)
  next
    case (NoSlots item s_pos q_pos j dev1 c1)
    then show ?thesis using NoMem by (simp add: ret_def)
  next
    case (NoQuantum item s_pos q_pos j dev1 c1 slots c2)
    then show ?thesis using NoMem by (simp add: ret_def)
  next
    case (BadSlot item s_pos q_pos j dev1 c1 slots c2)
    have sp: "s_pos = f_pos mod (?Q * ?S) div ?Q" using BadSlot(2) tr by simp
    have "int (length slots) = ?S"
    proof (cases "qs_data (data dev1 ! j)")
      case None
      then show ?thesis using BadSlot(4) rng
        by (auto simp: alloc_slots_def split: if_splits)
    next
      case (Some sl)
      then have "sl = slots" using BadSlot(4) by (simp add: alloc_slots_def)
      then have "j < length (data dev) \<and> qs_data (data dev ! j) = Some slots"
        using scull_follow_array [OF BadSlot(3)] Some by simp
      then show ?thesis using dev_ok_slots [OF ok, of j slots] by simp
    qed
    then show ?thesis using BadSlot(5) sp rng by simp
  next
    case (Copy item s_pos q_pos j dev1 c1 slots c2 q c3)
    have sp: "s_pos = f_pos mod (?Q * ?S) div ?Q"
      and qp: "q_pos = f_pos mod (?Q * ?S) mod ?Q"
      and it: "item = s32 (f_pos div (?Q * ?S))"
      using Copy(2) tr by simp_all
    have ji: "j = i" and jl: "j < length (data dev1)"
      using scull_follow_Some [OF Copy(3)] it i by simp_all
    obtain k where d1: "dev1 = dev\<lparr>data := data dev @ replicate k empty_qset\<rparr>"
      using scull_follow_chain [OF Copy(3)] by blast
    have sl: "int (length slots) = ?S \<and> list_all (slot_ok ?Q) slots \<and>
        (\<forall>t. quantum_at dev i t = (if t < length slots then slots ! t else None))"
    proof (cases "qs_data (data dev1 ! j)")
      case None
      then have rep: "slots = replicate (nat ?S) None"
        using Copy(4) by (auto simp: alloc_slots_def split: if_splits)
      have "quantum_at dev1 i t = None" for t
        using None ji by (simp add: quantum_at_def)
      then have "quantum_at dev i t = None" for t
        using d1 quantum_at_extend [of dev k i t] by simp
      then show ?thesis using rep rng by (simp add: list_all_iff slot_ok_def)
    next
      case (Some sl)
      then have e: "sl = slots" using Copy(4) by (simp add: alloc_slots_def)
      then have old: "j < length (data dev)" "qs_data (data dev ! j) = Some slots"
        using scull_follow_array [OF Copy(3)] Some by simp_all
      then have "int (length slots) = ?S \<and> list_all (slot_ok ?Q) slots"
        using dev_ok_slots [OF ok, of j slots] by simp
      moreover have "quantum_at dev i t = (if t < length slots then slots ! t else None)" for t
        using old ji by (simp add: quantum_at_def)
      ultimately show ?thesis by simp
    qed
    have sn: "nat s_pos = s" using sp s by simp
    have sb: "s < length slots" using Copy(5,6) sn by linarith
    have q: "int (length q) = ?Q \<and> (\<forall>q0. quantum_at dev i s = Some q0 \<longrightarrow> q = q0)"
    proof (cases "slots ! s")
      case None
      then have "q = map (junk K c2) [0..<nat ?Q]"
        using Copy(7) sn by (auto simp: alloc_quantum_def split: if_splits)
      moreover have "quantum_at dev i s = None" using sl sb None by simp
      moreover have "0 < ?Q" using par by (simp add: params_ok_def)
      ultimately show ?thesis by simp
    next
      case (Some q1)
      then have "q = q1" using Copy(7) sn by (simp add: alloc_quantum_def)
      moreover have "slot_ok ?Q (slots ! s)" using sl sb by (simp add: list_all_length)
      moreover have "quantum_at dev i s = Some q1" using sl sb Some by simp
      ultimately show ?thesis using Some by (simp add: slot_ok_def)
    qed
    show ?thesis
      using that(2) [of dev1 k slots q c3] d1 jl ji sl sb q Copy(8) sn qp by simp
  qed
qed


lemma poke_length:
  "off + length bs \<le> length q \<Longrightarrow> length (poke q off bs) = length q"
  by (simp add: poke_def)

lemma poke_nth:
  "off + length bs \<le> length q \<Longrightarrow> x < length q \<Longrightarrow>
   poke q off bs ! x = (if off \<le> x \<and> x < off + length bs then bs ! (x - off) else q ! x)"
  by (auto simp: poke_def nth_append)

lemma params_quantum_bound: "params_ok Q S \<Longrightarrow> Q < 2 ^ 31"
proof -
  assume a: "params_ok Q S"
  then have Q: "0 < Q" and S: "1 \<le> S" and QS: "Q * S < 2 ^ 31"
    by (simp_all add: params_ok_def)
  have "Q * 1 \<le> Q * S" using Q S by (intro mult_left_mono) simp_all
  then have "Q \<le> Q * S" by simp
  then show ?thesis using QS by linarith
qed

lemma set_data_size_same:
  "(set_data dev i sl)\<lparr>size := size dev\<rparr> = set_data dev i sl"
  by (simp add: set_data_def)

text \<open>The copy and what follows it, for a buffer of \<^verbatim>\<open>quantum\<close> bytes and arguments in range.\<close>

lemma write_quantum_ok:
  assumes "dev_ok dev" and "0 \<le> q_pos" "q_pos < quantum dev" "int (length q) = quantum dev"
    and "args_ok count f_pos"
    and n: "n = min count (quantum dev - q_pos)"
  shows "write_quantum dev c i slots s q q_pos ubuf count f_pos =
     (if nat n \<le> length ubuf
      then ret (Inr n) (f_pos + n)
             ((set_data dev i (slots[s := Some (poke q (nat q_pos) (take (nat n) ubuf))]))
                \<lparr>size := max (size dev) (f_pos + n)\<rparr>) c []
      else ret (Inl EFAULT) f_pos
             (set_data dev i (slots[s := Some (poke q (nat q_pos)
                (ubuf @ replicate (nat n - length ubuf) (CHR 0x00)))])) c [])"
proof -
  have c0: "0 \<le> count" and p0: "0 \<le> f_pos" and pc: "f_pos + count < 2 ^ 63"
    using assms(5) by (simp_all add: args_ok_def)
  have "quantum dev < 2 ^ 31"
    using assms(1) params_quantum_bound [of "quantum dev" "qset dev"] by (simp add: dev_ok_def)
  then have u: "u64 (s32 (quantum dev - q_pos)) = quantum dev - q_pos"
    using assms(2,3) by (simp add: u64_id s32_id)
  have c1: "(if count > u64 (s32 (quantum dev - q_pos))
             then u64 (s32 (quantum dev - q_pos)) else count) = n"
    using n u by (simp add: min_def)
  have n0: "0 \<le> n" "n \<le> count" "n \<le> quantum dev - q_pos"
    using n c0 assms(3) by simp_all
  have inb: "\<not> (q_pos < 0 \<or> int (length q) < q_pos + n)"
    using assms(2,4) n0 by simp
  have s: "s64 n = n" "s64 (f_pos + n) = f_pos + n" "u64 (f_pos + n) = f_pos + n"
    using n0 p0 pc by (simp_all add: s64_id u64_id)
  show ?thesis
    unfolding write_quantum_def c1 Let_def
    using inb s
    by (simp add: copy_from_user_def set_data_fields set_data_size_same max_def)
qed

lemma dev_ok_size:
  "dev_ok dev \<Longrightarrow> 0 \<le> m \<Longrightarrow> m < 2 ^ 64 \<Longrightarrow> dev_ok (dev\<lparr>size := m\<rparr>)"
  by (simp add: dev_ok_def)

lemma dev_ok_set_slot:
  assumes "dev_ok dev" "i < length (data dev)" "int (length slots) = qset dev"
    "list_all (slot_ok (quantum dev)) slots" "int (length q) = quantum dev"
  shows "dev_ok (set_data dev i (slots[s := Some q]))"
  using assms by (intro dev_ok_set_data slot_ok_update) simp_all

lemma quantum_at_set_slot:
  assumes "i < length (data dev)" "s < length slots"
    and "\<forall>t. quantum_at dev i t = (if t < length slots then slots ! t else None)"
  shows "quantum_at (set_data dev i (slots[s := Some q])) j t =
           (if j = i \<and> t = s then Some q else quantum_at dev j t)"
  using assms by (simp add: quantum_at_set_data nth_list_update)

lemma scull_write_result:
  assumes ok: "dev_ok dev" and ni: "\<not> intr" and args: "args_ok count f_pos"
    and tg: "target dev f_pos = Some (i, s)"
    and nomem: "retval (scull_write K intr c dev ubuf count f_pos) \<noteq> Inl ENOMEM"
    and o: "off = f_pos mod (quantum dev * qset dev) mod quantum dev"
    and n: "n = min count (quantum dev - off)"
    and r: "r = scull_write K intr c dev ubuf count f_pos"
  shows "\<exists>q q'. int (length q) = quantum dev \<and> (\<forall>q0. quantum_at dev i s = Some q0 \<longrightarrow> q = q0) \<and>
      (\<forall>j t. quantum_at (new_dev r) j t = (if j = i \<and> t = s then Some q' else quantum_at dev j t)) \<and>
      dev_ok (new_dev r) \<and> quantum (new_dev r) = quantum dev \<and> qset (new_dev r) = qset dev \<and>
      (if nat n \<le> length ubuf
       then retval r = Inr n \<and> new_pos r = f_pos + n \<and>
            size (new_dev r) = max (size dev) (f_pos + n) \<and>
            q' = poke q (nat off) (take (nat n) ubuf)
       else retval r = Inl EFAULT \<and> new_pos r = f_pos \<and> size (new_dev r) = size dev)"
proof -
  have p0: "0 \<le> f_pos" and p1: "f_pos < 2 ^ 63" and c0: "0 \<le> count"
    and pc: "f_pos + count < 2 ^ 63"
    using args by (simp_all add: args_ok_def)
  have par: "params_ok (quantum dev) (qset dev)" and sz: "0 \<le> size dev" "size dev < 2 ^ 64"
    using ok by (simp_all add: dev_ok_def)
  have orng: "0 \<le> off" "off < quantum dev" using offset_range [OF par, of f_pos] o by simp_all
  from ok ni p0 p1 tg show ?thesis
  proof (cases rule: scull_write_reaches
      [where K = K and c = c and ubuf = ubuf and count = count])
    case NoMem
    then show ?thesis using nomem by simp
  next
    case (Copy dev1 slots q c3 k)
    have ok1: "dev_ok dev1" using Copy(1) dev_ok_extend [OF ok] by simp
    have f1: "quantum dev1 = quantum dev" "qset dev1 = qset dev" "size dev1 = size dev"
      using Copy(1) by simp_all
    have qa1: "quantum_at dev1 j t = quantum_at dev j t" for j t
      using Copy(1) quantum_at_extend by simp
    have sl1: "\<forall>t. quantum_at dev1 i t = (if t < length slots then slots ! t else None)"
      using Copy(6) qa1 by simp
    have n0: "0 \<le> n" "n \<le> count" "n \<le> quantum dev - off"
      using n c0 orng by simp_all
    have e1: "r = write_quantum dev1 c3 i slots s q off ubuf count f_pos"
      using Copy(9) r o by simp
    have e2: "write_quantum dev1 c3 i slots s q off ubuf count f_pos =
     (if nat n \<le> length ubuf
      then ret (Inr n) (f_pos + n)
             ((set_data dev1 i (slots[s := Some (poke q (nat off) (take (nat n) ubuf))]))
                \<lparr>size := max (size dev1) (f_pos + n)\<rparr>) c3 []
      else ret (Inl EFAULT) f_pos
             (set_data dev1 i (slots[s := Some (poke q (nat off)
                (ubuf @ replicate (nat n - length ubuf) (CHR 0x00)))])) c3 [])"
    proof (rule write_quantum_ok [OF ok1 _ _ _ args])
      show "0 \<le> off" by (rule orng(1))
      show "off < quantum dev1" using orng(2) f1(1) by simp
      show "int (length q) = quantum dev1" using Copy(7) f1(1) by simp
      show "n = min count (quantum dev1 - off)" using n f1(1) by simp
    qed
    have wq: "r = (if nat n \<le> length ubuf
      then ret (Inr n) (f_pos + n)
             ((set_data dev1 i (slots[s := Some (poke q (nat off) (take (nat n) ubuf))]))
                \<lparr>size := max (size dev) (f_pos + n)\<rparr>) c3 []
      else ret (Inl EFAULT) f_pos
             (set_data dev1 i (slots[s := Some (poke q (nat off)
                (ubuf @ replicate (nat n - length ubuf) (CHR 0x00)))])) c3 [])"
      unfolding e1 e2 f1(3) ..
    show ?thesis
    proof (cases "nat n \<le> length ubuf")
      case True
      let ?q' = "poke q (nat off) (take (nat n) ubuf)"
      let ?d = "set_data dev1 i (slots[s := Some ?q'])"
      have len: "int (length ?q') = quantum dev"
        using True Copy(7) n0 orng by (simp add: poke_length)
      have rd: "new_dev r = ?d\<lparr>size := max (size dev) (f_pos + n)\<rparr>"
        and rv: "retval r = Inr n" "new_pos r = f_pos + n"
        using wq True by (simp_all add: ret_def)
      have "dev_ok ?d"
        using dev_ok_set_slot [OF ok1 Copy(2), of slots ?q' s] Copy(3,4) len f1 by simp
      moreover have "0 \<le> max (size dev) (f_pos + n)" "max (size dev) (f_pos + n) < 2 ^ 64"
        using sz n0 p0 pc by simp_all
      ultimately have okr: "dev_ok (new_dev r)" using rd dev_ok_size by simp
      have qa: "quantum_at (new_dev r) j t = (if j = i \<and> t = s then Some ?q' else quantum_at dev j t)"
        for j t
        using rd quantum_at_set_slot [OF Copy(2,5) sl1, of ?q' j t] qa1 by simp
      have fl: "quantum (new_dev r) = quantum dev" "qset (new_dev r) = qset dev"
        "size (new_dev r) = max (size dev) (f_pos + n)"
        using rd f1 by (simp_all add: set_data_fields)
      show ?thesis
        using True Copy(7,8) qa okr fl rv by (intro exI [of _ q] exI [of _ ?q']) simp
    next
      case False
      let ?q' = "poke q (nat off) (ubuf @ replicate (nat n - length ubuf) (CHR 0x00))"
      let ?d = "set_data dev1 i (slots[s := Some ?q'])"
      have len: "int (length ?q') = quantum dev"
        using False Copy(7) n0 orng by (simp add: poke_length)
      have rd: "new_dev r = ?d" and rv: "retval r = Inl EFAULT" "new_pos r = f_pos"
        using wq False by (simp_all add: ret_def)
      have okr: "dev_ok (new_dev r)"
        using dev_ok_set_slot [OF ok1 Copy(2), of slots ?q' s] Copy(3,4) len f1 rd by simp
      have qa: "quantum_at (new_dev r) j t = (if j = i \<and> t = s then Some ?q' else quantum_at dev j t)"
        for j t
        using rd quantum_at_set_slot [OF Copy(2,5) sl1, of ?q' j t] qa1 by simp
      have fl: "quantum (new_dev r) = quantum dev" "qset (new_dev r) = qset dev"
        "size (new_dev r) = size dev"
        using rd f1 by (simp_all add: set_data_fields)
      show ?thesis
        using False Copy(7,8) qa okr fl rv by (intro exI [of _ q] exI [of _ ?q']) simp
    qed
  qed
qed


subsection \<open>Writes of length 0\<close>

text \<open>
  Claim C9, as amended. On a well-formed device (\<^verbatim>\<open>quantum\<close> and \<^verbatim>\<open>qset\<close> positive
  with a product below \<open>2 ^ 31\<close>, every array of \<^verbatim>\<open>qset\<close> entries, every buffer of
  \<^verbatim>\<open>quantum\<close> bytes) and for every position \<open>0 \<le> P < 2 ^ 63\<close>, a call of
  \<^verbatim>\<open>scull_write\<close> with \<^verbatim>\<open>count = 0\<close> that acquires the semaphore and does not end
  with \<^verbatim>\<open>-ENOMEM\<close> returns 0, leaves \<^verbatim>\<open>*f_pos\<close> as it was and sets \<^verbatim>\<open>size\<close> to the
  larger of \<^verbatim>\<open>size\<close> and \<open>P\<close>. After the call the slot of its target holds a
  buffer, and every buffer that was there before the call is there with the
  same bytes. Without the bound on the product the call can trap instead.
\<close>

theorem zero_length_write:
  assumes "dev_ok dev" and "\<not> intr" and "0 \<le> f_pos" and "f_pos < 2 ^ 63"
    and "target dev f_pos = Some (i, s)"
    and "retval (scull_write K intr c dev ubuf 0 f_pos) \<noteq> Inl ENOMEM"
  shows "retval (scull_write K intr c dev ubuf 0 f_pos) = Inr 0 \<and>
         new_pos (scull_write K intr c dev ubuf 0 f_pos) = f_pos \<and>
         size (new_dev (scull_write K intr c dev ubuf 0 f_pos)) = max (size dev) f_pos \<and>
         quantum_at (new_dev (scull_write K intr c dev ubuf 0 f_pos)) i s \<noteq> None \<and>
         (\<forall>j t q. quantum_at dev j t = Some q \<longrightarrow>
            quantum_at (new_dev (scull_write K intr c dev ubuf 0 f_pos)) j t = Some q)"
proof -
  let ?r = "scull_write K intr c dev ubuf 0 f_pos"
  let ?off = "f_pos mod (quantum dev * qset dev) mod quantum dev"
  have par: "params_ok (quantum dev) (qset dev)" using assms(1) by (simp add: dev_ok_def)
  have "?off < quantum dev" using offset_range [OF par, of f_pos] by simp
  then have n: "0 = min 0 (quantum dev - ?off)" by simp
  have args: "args_ok 0 f_pos" using assms(3,4) by (simp add: args_ok_def)
  obtain q q' where q: "\<forall>q0. quantum_at dev i s = Some q0 \<longrightarrow> q = q0"
    and qa: "\<forall>j t. quantum_at (new_dev ?r) j t = (if j = i \<and> t = s then Some q' else quantum_at dev j t)"
    and res: "retval ?r = Inr 0" "new_pos ?r = f_pos" "size (new_dev ?r) = max (size dev) f_pos"
      "q' = poke q (nat ?off) []"
    using scull_write_result [OF assms(1,2) args assms(5,6) refl n refl] by auto
  have "q' = q" using res(4) by (simp add: poke_def)
  then have "quantum_at dev j t = Some q0 \<Longrightarrow> quantum_at (new_dev ?r) j t = Some q0" for j t q0
    using q qa by auto
  moreover have "quantum_at (new_dev ?r) i s \<noteq> None" using qa by simp
  ultimately show ?thesis using res(1,2,3) by blast
qed


theorem zero_length_write_witness:
  "dev_ok dev_ab \<and> target dev_ab 12 = Some (1, 1) \<and>
   retval (scull_write kmem_ok False 0 dev_ab [] 0 12) = Inr 0 \<and>
   new_pos (scull_write kmem_ok False 0 dev_ab [] 0 12) = 12 \<and>
   size (new_dev (scull_write kmem_ok False 0 dev_ab [] 0 12)) = 12 \<and>
   quantum_at dev_ab 1 1 = None \<and>
   quantum_at (new_dev (scull_write kmem_ok False 0 dev_ab [] 0 12)) 1 1 \<noteq> None \<and>
   quantum_at (new_dev (scull_write kmem_ok False 0 dev_ab [] 0 12)) 0 0 = Some ''ABCD''"
proof -
  have ok: "dev_ok dev_ab"
    by (simp add: dev_ok_def params_ok_def qset_ok_def slot_ok_def dev_ab_def)
  have t: "target dev_ab 12 = Some (1, 1)"
    by (simp add: target_def scull_eval)
  have nm: "retval (scull_write kmem_ok False 0 dev_ab [] 0 12) \<noteq> Inl ENOMEM"
    by (simp add: scull_eval eval_nat_numeral)
  have q0: "quantum_at dev_ab 1 1 = None" "quantum_at dev_ab 0 0 = Some ''ABCD''"
    by (simp_all add: quantum_at_def dev_ab_def)
  have z: "max (size dev_ab) 12 = 12" by (simp add: dev_ab_def)
  show ?thesis
    using zero_length_write [OF ok _ _ _ t nm] ok t q0 z by simp
qed

text \<open>
  On the fresh device with \<^verbatim>\<open>quantum = qset = 65536\<close> the product is 0 as an \<^verbatim>\<open>int\<close>:
  a write of length 0 at position 0 divides by zero before it allocates
  anything. It does not return 0, it leaves \<^verbatim>\<open>size\<close> at 0 and the chain empty.
\<close>

theorem zero_length_write_counterexample:
  "scull_write kmem_ok False 0 (scull_init 65536 65536) [] 0 0 =
     \<lparr>retval = Inl Trap_divide, new_pos = 0,
      new_dev = \<lparr>data = [], quantum = 65536, qset = 65536, size = 0\<rparr>,
      new_nalloc = 0, copied = []\<rparr> \<and>
   Inl Trap_divide \<noteq> (Inr 0 :: error + int) \<and>
   quantum_at \<lparr>data = [], quantum = 65536, qset = 65536, size = 0\<rparr> 0 0 = None"
  by (simp add: scull_eval quantum_at_def)

subsection \<open>The scenario with quantum 4 and qset 2\<close>

text \<open>
  The three calls of \<^verbatim>\<open>write\<close> and the three calls of \<^verbatim>\<open>read\<close> of the scenario, with
  an allocator that never fails and returns blocks of any content \<open>J\<close>.
\<close>

lemma scenario_write_1:
  "scull_write \<lparr>fails = (\<lambda>k. False), junk = J\<rparr> False 0 (scull_init 4 2) ''ABCDEFGHIJ'' 10 0 =
     ret (Inr 4) 4 \<lparr>data = [\<lparr>qs_data = Some [Some ''ABCD'', None]\<rparr>], quantum = 4, qset = 2, size = 4\<rparr> 3 []"
  by (simp add: scull_eval eval_nat_numeral upt_rec)

lemma scenario_write_2:
  "scull_write \<lparr>fails = (\<lambda>k. False), junk = J\<rparr> False 3 \<lparr>data = [\<lparr>qs_data = Some [Some ''ABCD'', None]\<rparr>], quantum = 4, qset = 2, size = 4\<rparr> ''EFGHIJ'' 6 4 =
     ret (Inr 4) 8 \<lparr>data = [\<lparr>qs_data = Some [Some ''ABCD'', Some ''EFGH'']\<rparr>], quantum = 4, qset = 2, size = 8\<rparr> 4 []"
  by (simp add: scull_eval eval_nat_numeral upt_rec)

lemma scenario_write_3:
  "scull_write \<lparr>fails = (\<lambda>k. False), junk = J\<rparr> False 4 \<lparr>data = [\<lparr>qs_data = Some [Some ''ABCD'', Some ''EFGH'']\<rparr>], quantum = 4, qset = 2, size = 8\<rparr> ''IJ'' 2 8 =
     ret (Inr 2) 10 \<lparr>data = [\<lparr>qs_data = Some [Some ''ABCD'', Some ''EFGH'']\<rparr>,
                 \<lparr>qs_data = Some [Some [CHR ''I'', CHR ''J'', J 6 2, J 6 3], None]\<rparr>],
         quantum = 4, qset = 2, size = 10\<rparr> 7 []"
  by (simp add: scull_eval eval_nat_numeral upt_rec)

lemma scenario_read_1:
  "scull_read \<lparr>fails = (\<lambda>k. False), junk = J\<rparr> False 7 \<lparr>data = [\<lparr>qs_data = Some [Some ''ABCD'', Some ''EFGH'']\<rparr>,
                 \<lparr>qs_data = Some [Some [CHR ''I'', CHR ''J'', J 6 2, J 6 3], None]\<rparr>],
         quantum = 4, qset = 2, size = 10\<rparr> 10 10 0 =
     ret (Inr 4) 4 \<lparr>data = [\<lparr>qs_data = Some [Some ''ABCD'', Some ''EFGH'']\<rparr>,
                 \<lparr>qs_data = Some [Some [CHR ''I'', CHR ''J'', J 6 2, J 6 3], None]\<rparr>],
         quantum = 4, qset = 2, size = 10\<rparr> 7 ''ABCD''"
  by (simp add: scull_eval eval_nat_numeral)

lemma scenario_read_2:
  "scull_read \<lparr>fails = (\<lambda>k. False), junk = J\<rparr> False 7 \<lparr>data = [\<lparr>qs_data = Some [Some ''ABCD'', Some ''EFGH'']\<rparr>,
                 \<lparr>qs_data = Some [Some [CHR ''I'', CHR ''J'', J 6 2, J 6 3], None]\<rparr>],
         quantum = 4, qset = 2, size = 10\<rparr> 6 6 4 =
     ret (Inr 4) 8 \<lparr>data = [\<lparr>qs_data = Some [Some ''ABCD'', Some ''EFGH'']\<rparr>,
                 \<lparr>qs_data = Some [Some [CHR ''I'', CHR ''J'', J 6 2, J 6 3], None]\<rparr>],
         quantum = 4, qset = 2, size = 10\<rparr> 7 ''EFGH''"
  by (simp add: scull_eval eval_nat_numeral)

lemma scenario_read_3:
  "scull_read \<lparr>fails = (\<lambda>k. False), junk = J\<rparr> False 7 \<lparr>data = [\<lparr>qs_data = Some [Some ''ABCD'', Some ''EFGH'']\<rparr>,
                 \<lparr>qs_data = Some [Some [CHR ''I'', CHR ''J'', J 6 2, J 6 3], None]\<rparr>],
         quantum = 4, qset = 2, size = 10\<rparr> 2 2 8 =
     ret (Inr 2) 10 \<lparr>data = [\<lparr>qs_data = Some [Some ''ABCD'', Some ''EFGH'']\<rparr>,
                 \<lparr>qs_data = Some [Some [CHR ''I'', CHR ''J'', J 6 2, J 6 3], None]\<rparr>],
         quantum = 4, qset = 2, size = 10\<rparr> 7 ''IJ''"
  by (simp add: scull_eval eval_nat_numeral)

lemma scenario_write_all:
  "write_all \<lparr>fails = (\<lambda>k. False), junk = J\<rparr> 0 (scull_init 4 2) ''ABCDEFGHIJ'' 0 =
     Some ([4, 4, 2], \<lparr>data = [\<lparr>qs_data = Some [Some ''ABCD'', Some ''EFGH'']\<rparr>,
                 \<lparr>qs_data = Some [Some [CHR ''I'', CHR ''J'', J 6 2, J 6 3], None]\<rparr>],
         quantum = 4, qset = 2, size = 10\<rparr>, 7, 10)"
  apply (subst write_all.simps)
  apply (simp add: scenario_write_1 [simplified] ret_def)
  apply (subst write_all.simps)
  apply (simp add: scenario_write_2 [simplified] ret_def)
  apply (subst write_all.simps)
  apply (simp add: scenario_write_3 [simplified] ret_def)
  apply (subst write_all.simps)
  apply simp
  done

lemma scenario_read_all:
  "read_all \<lparr>fails = (\<lambda>k. False), junk = J\<rparr> 7 \<lparr>data = [\<lparr>qs_data = Some [Some ''ABCD'', Some ''EFGH'']\<rparr>,
                 \<lparr>qs_data = Some [Some [CHR ''I'', CHR ''J'', J 6 2, J 6 3], None]\<rparr>],
         quantum = 4, qset = 2, size = 10\<rparr> 10 0 = Some ''ABCDEFGHIJ''"
  apply (subst read_all.simps)
  apply (simp add: scenario_read_1 [simplified] ret_def)
  apply (subst read_all.simps)
  apply (simp add: scenario_read_2 [simplified] ret_def)
  apply (subst read_all.simps)
  apply (simp add: scenario_read_3 [simplified] ret_def)
  apply (subst read_all.simps)
  apply (simp add: scenario_read_1 [simplified] scenario_read_2 [simplified]
      scenario_read_3 [simplified] ret_def)
  done

text \<open>
  Claim C5. With \<^verbatim>\<open>quantum = 4\<close> and \<^verbatim>\<open>qset = 2\<close>, on the fresh device and with
  an allocator that never fails, writing \<open>ABCDEFGHIJ\<close> from position 0 takes three
  calls of \<^verbatim>\<open>write\<close>, which return 4, 4 and 2; then \<^verbatim>\<open>size\<close> is 10, and reading 10
  bytes from position 0 in a loop returns \<open>ABCDEFGHIJ\<close>.
\<close>

theorem scenario_ten_bytes:
  "retval (scull_write \<lparr>fails = (\<lambda>k. False), junk = J\<rparr> False 0 (scull_init 4 2) ''ABCDEFGHIJ'' 10 0) = Inr 4 \<and>
   retval (scull_write \<lparr>fails = (\<lambda>k. False), junk = J\<rparr> False 3 \<lparr>data = [\<lparr>qs_data = Some [Some ''ABCD'', None]\<rparr>], quantum = 4, qset = 2, size = 4\<rparr> ''EFGHIJ'' 6 4) = Inr 4 \<and>
   retval (scull_write \<lparr>fails = (\<lambda>k. False), junk = J\<rparr> False 4 \<lparr>data = [\<lparr>qs_data = Some [Some ''ABCD'', Some ''EFGH'']\<rparr>], quantum = 4, qset = 2, size = 8\<rparr> ''IJ'' 2 8) = Inr 2 \<and>
   write_all \<lparr>fails = (\<lambda>k. False), junk = J\<rparr> 0 (scull_init 4 2) ''ABCDEFGHIJ'' 0 = Some ([4, 4, 2], \<lparr>data = [\<lparr>qs_data = Some [Some ''ABCD'', Some ''EFGH'']\<rparr>,
                 \<lparr>qs_data = Some [Some [CHR ''I'', CHR ''J'', J 6 2, J 6 3], None]\<rparr>],
         quantum = 4, qset = 2, size = 10\<rparr>, 7, 10) \<and>
   size \<lparr>data = [\<lparr>qs_data = Some [Some ''ABCD'', Some ''EFGH'']\<rparr>,
                 \<lparr>qs_data = Some [Some [CHR ''I'', CHR ''J'', J 6 2, J 6 3], None]\<rparr>],
         quantum = 4, qset = 2, size = 10\<rparr> = 10 \<and>
   read_all \<lparr>fails = (\<lambda>k. False), junk = J\<rparr> 7 \<lparr>data = [\<lparr>qs_data = Some [Some ''ABCD'', Some ''EFGH'']\<rparr>,
                 \<lparr>qs_data = Some [Some [CHR ''I'', CHR ''J'', J 6 2, J 6 3], None]\<rparr>],
         quantum = 4, qset = 2, size = 10\<rparr> 10 0 = Some ''ABCDEFGHIJ''"
  by (simp add: scenario_write_1 scenario_write_2 scenario_write_3 scenario_write_all
      scenario_read_all ret_def)

subsection \<open>The paths of scull_read on a well-formed device\<close>

text \<open>The copy of a read and what follows it, for a buffer of \<^verbatim>\<open>quantum\<close> bytes.\<close>

lemma read_quantum_ok:
  assumes "dev_ok dev" and "0 \<le> q_pos" "q_pos < quantum dev" "int (length q) = quantum dev"
    and "args_ok count f_pos"
    and n: "n = min count (quantum dev - q_pos)"
  shows "read_quantum dev c q q_pos ucap count f_pos =
     (if int ucap < n then ret (Inl EFAULT) f_pos dev c []
      else ret (Inr n) (f_pos + n) dev c (take (nat n) (drop (nat q_pos) q)))"
proof -
  have c0: "0 \<le> count" and p0: "0 \<le> f_pos" and pc: "f_pos + count < 2 ^ 63"
    using assms(5) by (simp_all add: args_ok_def)
  have "quantum dev < 2 ^ 31"
    using assms(1) params_quantum_bound [of "quantum dev" "qset dev"] by (simp add: dev_ok_def)
  then have u: "u64 (s32 (quantum dev - q_pos)) = quantum dev - q_pos"
    using assms(2,3) by (simp add: u64_id s32_id)
  have c1: "(if count > u64 (s32 (quantum dev - q_pos))
             then u64 (s32 (quantum dev - q_pos)) else count) = n"
    using n u by (simp add: min_def)
  have n0: "0 \<le> n" "n \<le> count" "n \<le> quantum dev - q_pos"
    using n c0 assms(3) by simp_all
  have inb: "\<not> (q_pos < 0 \<or> int (length q) < q_pos + n)"
    using assms(2,4) n0 by simp
  have s: "s64 n = n" "s64 (f_pos + n) = f_pos + n"
    using n0 p0 pc by (simp_all add: s64_id)
  show ?thesis
    unfolding read_quantum_def c1 Let_def
    using inb s by simp
qed

lemma read_count_clamp:
  assumes "dev_ok dev" "args_ok count f_pos" "f_pos < size dev"
  shows "(if u64 (f_pos + count) > size dev then u64 (size dev - f_pos) else count)
           = min count (size dev - f_pos)"
proof -
  have c0: "0 \<le> count" and p0: "0 \<le> f_pos" and pc: "f_pos + count < 2 ^ 63"
    using assms(2) by (simp_all add: args_ok_def)
  have sz: "size dev < 2 ^ 64" using assms(1) by (simp add: dev_ok_def)
  have "u64 (f_pos + count) = f_pos + count" using c0 p0 pc by (simp add: u64_id)
  moreover have "u64 (size dev - f_pos) = size dev - f_pos"
    using assms(3) p0 sz by (simp add: u64_id)
  ultimately show ?thesis by (simp add: min_def)
qed

lemma quantum_atD:
  assumes "quantum_at dev i s = Some q"
  obtains slots where "i < length (data dev)" "qs_data (data dev ! i) = Some slots"
    "s < length slots" "slots ! s = Some q"
  using assms by (auto simp: quantum_at_def split: if_splits option.splits)

lemma dev_ok_quantum:
  assumes "dev_ok dev" "quantum_at dev i s = Some q"
  shows "int (length q) = quantum dev"
proof -
  obtain slots where sl: "i < length (data dev)" "qs_data (data dev ! i) = Some slots"
    "s < length slots" "slots ! s = Some q"
    using assms(2) by (rule quantum_atD)
  have "list_all (slot_ok (quantum dev)) slots"
    using dev_ok_slots [OF assms(1) sl(1,2)] by simp
  then have "slot_ok (quantum dev) (slots ! s)" using sl(3) by (simp add: list_all_length)
  then show ?thesis using sl(4) by (simp add: slot_ok_def)
qed

text \<open>A read of a position below \<^verbatim>\<open>size\<close> whose target holds the buffer \<open>q\<close>.\<close>

lemma scull_read_result:
  assumes ok: "dev_ok dev" and ni: "\<not> intr" and args: "args_ok count f_pos"
    and lt: "f_pos < size dev"
    and tg: "target dev f_pos = Some (i, s)" and q: "quantum_at dev i s = Some q"
    and o: "off = f_pos mod (quantum dev * qset dev) mod quantum dev"
    and n: "n = min (min count (size dev - f_pos)) (quantum dev - off)"
  shows "scull_read K intr c dev ucap count f_pos =
     (if int ucap < n then ret (Inl EFAULT) f_pos dev c []
      else ret (Inr n) (f_pos + n) dev c (take (nat n) (drop (nat off) q)))"
proof -
  let ?Q = "quantum dev" and ?S = "qset dev"
  have p0: "0 \<le> f_pos" and p1: "f_pos < 2 ^ 63" and c0: "0 \<le> count"
    and pc: "f_pos + count < 2 ^ 63"
    using args by (simp_all add: args_ok_def)
  have par: "params_ok ?Q ?S" using ok by (simp add: dev_ok_def)
  have tr: "translate ?Q ?S f_pos =
      Inr (s32 (f_pos div (?Q * ?S)), f_pos mod (?Q * ?S) div ?Q, off)"
    using translate_ok [OF par p0 p1] o by simp
  have i: "i = nat (s32 (f_pos div (?Q * ?S)) mod 2 ^ 32)"
    and s: "s = nat (f_pos mod (?Q * ?S) div ?Q)"
    using tg tr by (simp_all add: target_def)
  have rng: "0 \<le> f_pos mod (?Q * ?S) div ?Q"
    using slot_index_range [OF par p0] by simp
  have orng: "0 \<le> off" "off < ?Q" using offset_range [OF par, of f_pos] o by simp_all
  obtain slots where sl: "i < length (data dev)" "qs_data (data dev ! i) = Some slots"
    "s < length slots" "slots ! s = Some q"
    using q by (rule quantum_atD)
  have fo: "scull_follow K c dev (s32 (f_pos div (?Q * ?S))) = (Some i, dev, c)"
    using scull_follow_present [of "s32 (f_pos div (?Q * ?S))" dev K c] sl(1) i by simp
  have eof: "\<not> size dev \<le> u64 f_pos" using lt p0 p1 by (simp add: u64_id)
  have sb: "\<not> (f_pos mod (?Q * ?S) div ?Q < 0 \<or>
       int (length slots) \<le> f_pos mod (?Q * ?S) div ?Q)"
    using rng sl(3) s by linarith
  have cl: "(if u64 (f_pos + count) > size dev then u64 (size dev - f_pos) else count)
           = min count (size dev - f_pos)"
    by (rule read_count_clamp [OF ok args lt])
  have args1: "args_ok (min count (size dev - f_pos)) f_pos"
    using p0 c0 pc lt by (simp add: args_ok_def)
  have e1: "scull_read K intr c dev ucap count f_pos =
      read_quantum dev c q off ucap (min count (size dev - f_pos)) f_pos"
    unfolding scull_read_def Let_def cl
    using ni eof tr fo sl(2,4) sb s by simp
  show ?thesis
    unfolding e1
    by (rule read_quantum_ok [OF ok orng dev_ok_quantum [OF ok q] args1 n])
qed

text \<open>No call traps on a well-formed device, and the device stays well-formed.\<close>

lemma scull_read_chain:
  "\<exists>k. new_dev (scull_read K intr c dev ucap count f_pos) =
        dev\<lparr>data := data dev @ replicate k empty_qset\<rparr>"
proof -
  have same: "new_dev (scull_read K intr c dev ucap count f_pos) = dev \<Longrightarrow> ?thesis"
  proof -
    assume "new_dev (scull_read K intr c dev ucap count f_pos) = dev"
    then have "new_dev (scull_read K intr c dev ucap count f_pos) =
        dev\<lparr>data := data dev @ replicate 0 empty_qset\<rparr>" by simp
    then show ?thesis by blast
  qed
  show ?thesis
  proof (cases rule: scull_read_cases [of intr K c dev ucap count f_pos])
    case Intr
    then show ?thesis using same by (simp add: ret_def)
  next
    case Eof
    then show ?thesis using same by (simp add: ret_def)
  next
    case (Trap e)
    then show ?thesis using same by (simp add: ret_def)
  next
    case (NoNode item s_pos q_pos dev1 c1)
    then show ?thesis using scull_follow_chain [OF NoNode(4)] by (simp add: ret_def)
  next
    case (NoSlots item s_pos q_pos j dev1 c1)
    then show ?thesis using scull_follow_chain [OF NoSlots(4)] by (simp add: ret_def)
  next
    case (BadSlot item s_pos q_pos j dev1 c1 slots)
    then show ?thesis using scull_follow_chain [OF BadSlot(4)] by (simp add: ret_def)
  next
    case (NoQuantum item s_pos q_pos j dev1 c1 slots)
    then show ?thesis using scull_follow_chain [OF NoQuantum(4)] by (simp add: ret_def)
  next
    case (Copy item s_pos q_pos j dev1 c1 slots q)
    then show ?thesis
      using scull_follow_chain [OF Copy(4)] by (simp add: read_quantum_fields)
  qed
qed

lemma scull_read_dev_ok:
  assumes "dev_ok dev"
  shows "dev_ok (new_dev (scull_read K intr c dev ucap count f_pos))"
proof -
  obtain k where "new_dev (scull_read K intr c dev ucap count f_pos) =
        dev\<lparr>data := data dev @ replicate k empty_qset\<rparr>"
    using scull_read_chain by blast
  then show ?thesis using dev_ok_extend [OF assms] by simp
qed

lemma scull_read_no_trap:
  assumes ok: "dev_ok dev" and args: "args_ok count f_pos"
  shows "\<not> is_trap (retval (scull_read K intr c dev ucap count f_pos))"
proof -
  let ?Q = "quantum dev" and ?S = "qset dev"
  have p0: "0 \<le> f_pos" and p1: "f_pos < 2 ^ 63" and c0: "0 \<le> count"
    and pc: "f_pos + count < 2 ^ 63"
    using args by (simp_all add: args_ok_def)
  have par: "params_ok ?Q ?S" using ok by (simp add: dev_ok_def)
  have tr: "translate ?Q ?S f_pos =
      Inr (s32 (f_pos div (?Q * ?S)), f_pos mod (?Q * ?S) div ?Q, f_pos mod (?Q * ?S) mod ?Q)"
    using translate_ok [OF par p0 p1] .
  have rng: "0 \<le> f_pos mod (?Q * ?S) div ?Q" "f_pos mod (?Q * ?S) div ?Q < ?S"
    using slot_index_range [OF par p0] by simp_all
  have orng: "0 \<le> f_pos mod (?Q * ?S) mod ?Q" "f_pos mod (?Q * ?S) mod ?Q < ?Q"
    using offset_range [OF par, of f_pos] by simp_all
  show ?thesis
  proof (cases rule: scull_read_cases [of intr K c dev ucap count f_pos])
    case Intr
    then show ?thesis by (simp add: ret_def is_trap_def)
  next
    case Eof
    then show ?thesis by (simp add: ret_def is_trap_def)
  next
    case (Trap e)
    then show ?thesis using tr by simp
  next
    case (NoNode item s_pos q_pos dev1 c1)
    then show ?thesis by (simp add: ret_def is_trap_def)
  next
    case (NoSlots item s_pos q_pos j dev1 c1)
    then show ?thesis by (simp add: ret_def is_trap_def)
  next
    case (BadSlot item s_pos q_pos j dev1 c1 slots)
    have "j < length (data dev) \<and> qs_data (data dev ! j) = Some slots"
      using scull_follow_array [OF BadSlot(4,5)] .
    then have "int (length slots) = ?S" using dev_ok_slots [OF ok, of j slots] by simp
    then show ?thesis using BadSlot(3,6) tr rng by simp
  next
    case (NoQuantum item s_pos q_pos j dev1 c1 slots)
    then show ?thesis by (simp add: ret_def is_trap_def)
  next
    case (Copy item s_pos q_pos j dev1 c1 slots q)
    have qp: "q_pos = f_pos mod (?Q * ?S) mod ?Q" using Copy(3) tr by simp
    have old: "j < length (data dev) \<and> qs_data (data dev ! j) = Some slots"
      using scull_follow_array [OF Copy(4,5)] .
    have "quantum_at dev j (nat s_pos) = Some q"
      using old Copy(6,7,8) by (simp add: quantum_at_def)
    then have len: "int (length q) = ?Q" by (rule dev_ok_quantum [OF ok])
    have lt: "f_pos < size dev" using Copy(2) p0 p1 by (simp add: u64_id)
    have ok1: "dev_ok dev1"
      using scull_follow_chain [OF Copy(4)] dev_ok_extend [OF ok] by auto
    have f1: "quantum dev1 = ?Q" using scull_follow_fields [OF Copy(4)] by simp
    have args1: "args_ok (min count (size dev - f_pos)) f_pos"
      using p0 c0 pc lt by (simp add: args_ok_def)
    have "scull_read K intr c dev ucap count f_pos =
        read_quantum dev1 c1 q q_pos ucap (min count (size dev - f_pos)) f_pos"
      using Copy(9) read_count_clamp [OF ok args lt] by simp
    also have "\<dots> = (if int ucap < min (min count (size dev - f_pos)) (quantum dev1 - q_pos)
        then ret (Inl EFAULT) f_pos dev1 c1 []
        else ret (Inr (min (min count (size dev - f_pos)) (quantum dev1 - q_pos)))
               (f_pos + min (min count (size dev - f_pos)) (quantum dev1 - q_pos)) dev1 c1
               (take (nat (min (min count (size dev - f_pos)) (quantum dev1 - q_pos)))
                  (drop (nat q_pos) q)))"
    proof (rule read_quantum_ok [OF ok1 _ _ _ args1 refl])
      show "0 \<le> q_pos" using orng(1) qp by simp
      show "q_pos < quantum dev1" using orng(2) qp f1 by simp
      show "int (length q) = quantum dev1" using len f1 by simp
    qed
    finally show ?thesis by (simp add: ret_def is_trap_def)
  qed
qed

subsection \<open>Histories of operations\<close>

lemma alloc_slots_ok:
  assumes "dev_ok dev" "i < length (data dev)"
    and "alloc_slots K c (qset dev) (data dev ! i) = Some (slots, c2)"
  shows "int (length slots) = qset dev \<and> list_all (slot_ok (quantum dev)) slots"
proof (cases "qs_data (data dev ! i)")
  case None
  then have "slots = replicate (nat (qset dev)) None"
    using assms(3) by (auto simp: alloc_slots_def split: if_splits)
  moreover have "0 < qset dev" using assms(1) by (simp add: dev_ok_def params_ok_def)
  ultimately show ?thesis by (simp add: list_all_iff slot_ok_def)
next
  case (Some sl)
  then have "sl = slots" using assms(3) by (simp add: alloc_slots_def)
  then show ?thesis using dev_ok_slots [OF assms(1,2), of slots] Some by simp
qed

lemma write_quantum_not_nomem:
  "retval (write_quantum dev c i slots s q q_pos ubuf count f_pos) \<noteq> Inl ENOMEM"
  by (simp add: write_quantum_def ret_def Let_def split: prod.splits)

lemma scull_write_nomem_dev_ok:
  assumes ok: "dev_ok dev"
    and nm: "retval (scull_write K intr c dev ubuf count f_pos) = Inl ENOMEM"
  shows "dev_ok (new_dev (scull_write K intr c dev ubuf count f_pos))"
proof (cases rule: scull_write_cases [of intr K c dev ubuf count f_pos])
  case Intr
  then show ?thesis using ok by (simp add: ret_def)
next
  case (Trap e)
  then show ?thesis using ok by (simp add: ret_def)
next
  case (NoNode item s_pos q_pos dev1 c1)
  then show ?thesis
    using scull_follow_chain [OF NoNode(3)] dev_ok_extend [OF ok] by (auto simp: ret_def)
next
  case (NoSlots item s_pos q_pos i dev1 c1)
  then show ?thesis
    using scull_follow_chain [OF NoSlots(3)] dev_ok_extend [OF ok] by (auto simp: ret_def)
next
  case (BadSlot item s_pos q_pos i dev1 c1 slots c2)
  then show ?thesis using nm by (simp add: ret_def)
next
  case (NoQuantum item s_pos q_pos i dev1 c1 slots c2)
  have ok1: "dev_ok dev1"
    using scull_follow_chain [OF NoQuantum(3)] dev_ok_extend [OF ok] by auto
  have f1: "qset dev1 = qset dev" "quantum dev1 = quantum dev"
    using scull_follow_fields [OF NoQuantum(3)] by simp_all
  have il: "i < length (data dev1)" using scull_follow_Some [OF NoQuantum(3)] by simp
  have "int (length slots) = qset dev1 \<and> list_all (slot_ok (quantum dev1)) slots"
    using alloc_slots_ok [OF ok1 il, of K c1 slots c2] NoQuantum(4) f1 by simp
  then have "dev_ok (set_data dev1 i slots)"
    using dev_ok_set_data [OF ok1 il, of slots] by simp
  then show ?thesis using NoQuantum(8) by (simp add: ret_def)
next
  case (Copy item s_pos q_pos i dev1 c1 slots c2 q c3)
  then show ?thesis using nm write_quantum_not_nomem by simp
qed

lemma scull_write_summary:
  assumes ok: "dev_ok dev" and args: "args_ok count f_pos"
  shows "dev_ok (new_dev (scull_write K intr c dev ubuf count f_pos)) \<and>
     (case retval (scull_write K intr c dev ubuf count f_pos) of
        Inl e \<Rightarrow> \<not> is_trap (Inl e) \<and>
                 size (new_dev (scull_write K intr c dev ubuf count f_pos)) = size dev
      | Inr n \<Rightarrow> size (new_dev (scull_write K intr c dev ubuf count f_pos))
                   = max (size dev) (f_pos + n))"
proof (cases intr)
  case True
  then show ?thesis using ok by (simp add: scull_write_def ret_def is_trap_def)
next
  case ni: False
  have p0: "0 \<le> f_pos" and p1: "f_pos < 2 ^ 63"
    using args by (simp_all add: args_ok_def)
  let ?r = "scull_write K intr c dev ubuf count f_pos"
  show ?thesis
  proof (cases "retval ?r = Inl ENOMEM")
    case True
    then show ?thesis
      using scull_write_nomem_dev_ok [OF ok True] scull_write_error [OF True]
      by (simp add: is_trap_def)
  next
    case False
    let ?off = "f_pos mod (quantum dev * qset dev) mod quantum dev"
    let ?n = "min count (quantum dev - ?off)"
    have "dev_ok (new_dev ?r) \<and>
      (if nat ?n \<le> length ubuf
       then retval ?r = Inr ?n \<and> size (new_dev ?r) = max (size dev) (f_pos + ?n)
       else retval ?r = Inl EFAULT \<and> size (new_dev ?r) = size dev)"
      using scull_write_result [OF ok ni args target_ok [OF ok p0 p1] False refl refl refl]
      by auto
    then show ?thesis by (auto simp: is_trap_def split: if_splits)
  qed
qed

lemma scull_trim_ok:
  assumes "dev_ok dev"
  shows "scull_trim SQ SS dev = Inr (scull_init SQ SS)"
proof -
  have "trim_loop (qset dev) (data dev) \<noteq> None"
    using assms trim_loop_ok [of "quantum dev" "qset dev" "data dev"] by (simp add: dev_ok_def)
  then show ?thesis by (auto simp: scull_trim_def scull_init_def)
qed

lemma scull_init_ok: "params_ok Q S \<Longrightarrow> dev_ok (scull_init Q S)"
  by (simp add: dev_ok_def scull_init_def)

lemma step_invariant:
  assumes "params_ok SQ SS" and "dev_ok (h_dev h)" and "size (h_dev h) = high h"
    and "op_ok x"
  shows "\<exists>h'. step K SQ SS h x = Some h' \<and> dev_ok (h_dev h') \<and> size (h_dev h') = high h'"
proof (cases x)
  case (Read intr ucap count f_pos)
  then have args: "args_ok count f_pos" using assms(4) by (simp add: op_ok_def)
  show ?thesis
    using Read scull_read_no_trap [OF assms(2) args, of K intr "h_nalloc h" ucap]
      scull_read_dev_ok [OF assms(2), of K intr "h_nalloc h" ucap count f_pos]
      scull_read_fields [of K intr "h_nalloc h" "h_dev h" ucap count f_pos] assms(3)
    by (simp add: Let_def)
next
  case (Write intr ubuf count f_pos)
  then have args: "args_ok count f_pos" using assms(4) by (simp add: op_ok_def)
  let ?r = "scull_write K intr (h_nalloc h) (h_dev h) ubuf count f_pos"
  have sm: "dev_ok (new_dev ?r) \<and>
     (case retval ?r of
        Inl e \<Rightarrow> \<not> is_trap (Inl e) \<and> size (new_dev ?r) = size (h_dev h)
      | Inr n \<Rightarrow> size (new_dev ?r) = max (size (h_dev h)) (f_pos + n))"
    by (rule scull_write_summary [OF assms(2) args])
  show ?thesis
  proof (cases "retval ?r")
    case (Inl e)
    then show ?thesis using Write sm assms(3) by (simp add: Let_def)
  next
    case (Inr n)
    then show ?thesis using Write sm assms(3) by (simp add: Let_def)
  qed
next
  case Trim
  then show ?thesis
    using scull_trim_ok [OF assms(2), of SQ SS] scull_init_ok [OF assms(1)]
    by (simp add: scull_init_def)
qed

lemma run_invariant:
  assumes "params_ok SQ SS" and "\<forall>x\<in>set ops. op_ok x"
    and "dev_ok (h_dev h)" and "size (h_dev h) = high h"
  shows "\<exists>h'. run K SQ SS h ops = Some h' \<and> dev_ok (h_dev h') \<and> size (h_dev h') = high h'"
  using assms(2,3,4)
proof (induction ops arbitrary: h)
  case Nil
  then show ?case by simp
next
  case (Cons x xs)
  then have "op_ok x" by simp
  then obtain h1 where h1: "step K SQ SS h x = Some h1" "dev_ok (h_dev h1)"
    "size (h_dev h1) = high h1"
    using step_invariant [OF assms(1) Cons.prems(2,3)] by blast
  then show ?case using Cons.IH [of h1] Cons.prems(1) by simp
qed

text \<open>
  Claim C4, as amended. Start from the fresh device with parameters \<open>Q\<close> and \<open>S\<close>
  and run any sequence of reads, writes and trims whose arguments are positions
  and counts the kernel can pass (with any allocator, any interrupted waits and
  any user buffers). No call traps, and in the state reached \<^verbatim>\<open>size\<close> equals the
  largest end position \<^verbatim>\<open>*f_pos + count\<close> of a successful write since the last
  trim, 0 when there is none. It is not bounded by the number of bytes written.
\<close>

theorem size_is_highest_end:
  assumes "params_ok Q S" and "params_ok SQ SS" and "\<forall>x\<in>set ops. op_ok x"
  shows "\<exists>h. run K SQ SS (start Q S) ops = Some h \<and> size (h_dev h) = high h"
proof -
  have "dev_ok (h_dev (start Q S))" "size (h_dev (start Q S)) = high (start Q S)"
    using scull_init_ok [OF assms(1)] by (simp_all add: start_def scull_init_def)
  then show ?thesis using run_invariant [OF assms(2,3)] by blast
qed

theorem size_is_highest_end_witness:
  "params_ok 4 2 \<and> op_ok (Write False ''AB'' 2 5) \<and> op_ok (Read False 1 1 5) \<and> op_ok Trim \<and>
   op_ok (Write False ''xyz'' 3 1) \<and>
   (\<exists>h. run kmem_ok 4 2 (start 4 2)
          [Write False ''AB'' 2 5, Read False 1 1 5, Trim, Write False ''xyz'' 3 1] = Some h \<and>
        size (h_dev h) = high h)"
proof -
  have p: "params_ok 4 2" by (simp add: params_ok_def)
  have o: "op_ok (Write False ''AB'' 2 5)" "op_ok (Read False 1 1 5)" "op_ok Trim"
    "op_ok (Write False ''xyz'' 3 1)"
    by (simp_all add: op_ok_def args_ok_def)
  then have "\<forall>x\<in>set [Write False ''AB'' 2 5, Read False 1 1 5, Trim, Write False ''xyz'' 3 1].
      op_ok x" by simp
  then show ?thesis using p o size_is_highest_end [OF p p, of _ kmem_ok] by blast
qed

text \<open>
  One write of one byte at position 5 to the fresh device: \<^verbatim>\<open>size\<close> is 6 and one
  byte has been written.
\<close>

theorem size_is_highest_end_counterexample:
  "run kmem_ok 4 2 (start 4 2) [Write False ''A'' 1 5] =
     Some \<lparr>h_dev = \<lparr>data = [\<lparr>qs_data = Some [None, Some ''?A??'']\<rparr>], quantum = 4,
                     qset = 2, size = 6\<rparr>,
           h_nalloc = 3, written = 1, high = 6\<rparr> \<and>
   \<not> (6::int) \<le> 1"
  by (simp add: start_def scull_eval eval_nat_numeral upt_rec)

subsection \<open>Positions and quanta\<close>

lemma split_position:
  assumes "0 < (Q::int)" "0 < S"
  shows "x div (Q * S) = x div Q div S" and "x mod (Q * S) div Q = x div Q mod S"
    and "x mod (Q * S) mod Q = x mod Q"
proof -
  show "x div (Q * S) = x div Q div S"
    using assms by (simp add: zdiv_zmult2_eq)
  have m: "x mod (Q * S) = Q * (x div Q mod S) + x mod Q"
    using assms by (simp add: zmod_zmult2_eq)
  have r: "0 \<le> x mod Q" "x mod Q < Q" using assms by simp_all
  show "x mod (Q * S) div Q = x div Q mod S"
    unfolding m using r assms(1) by (simp add: div_pos_pos_trivial)
  show "x mod (Q * S) mod Q = x mod Q"
    unfolding m by simp
qed

lemma div_mod_unique:
  assumes "0 \<le> r" "r < (Q::int)" "x = k * Q + r"
  shows "x div Q = k" and "x mod Q = r"
proof -
  have "0 < Q" using assms(1,2) by simp
  show "x div Q = k"
    unfolding assms(3) using assms(1,2) by (simp add: div_pos_pos_trivial)
  show "x mod Q = r"
    unfolding assms(3) using assms(1,2) by (simp add: mod_pos_pos_trivial)
qed

lemma same_quantum:
  assumes "0 < (Q::int)" "p \<le> x" "x < p + (Q - p mod Q)"
  shows "x div Q = p div Q" and "x mod Q = p mod Q + (x - p)"
proof -
  have p: "p = p div Q * Q + p mod Q" by (rule div_mult_mod_eq [symmetric])
  have x: "x = p div Q * Q + (p mod Q + (x - p))" using p by linarith
  have r: "0 \<le> p mod Q + (x - p)" "p mod Q + (x - p) < Q"
    using assms by simp_all
  show "x div Q = p div Q" by (rule div_mod_unique(1) [OF r x])
  show "x mod Q = p mod Q + (x - p)" by (rule div_mod_unique(2) [OF r x])
qed

lemma div_less_bound:
  assumes "0 < (N::int)" "p < B * N"
  shows "p div N < B"
proof (rule ccontr)
  assume "\<not> p div N < B"
  then have "B * N \<le> p div N * N" using assms(1) by (intro mult_right_mono) simp_all
  moreover have "p div N * N + p mod N = p" by (rule div_mult_mod_eq)
  moreover have "0 \<le> p mod N" using assms(1) by simp
  ultimately show False using assms(2) by linarith
qed

lemma earlier_in_quantum:
  assumes "0 < (Q::int)" "x < p" "x div Q = p div Q"
  shows "x mod Q < p mod Q"
proof -
  have "p = p div Q * Q + p mod Q" by (rule div_mult_mod_eq [symmetric])
  moreover have "x = x div Q * Q + x mod Q" by (rule div_mult_mod_eq [symmetric])
  ultimately show ?thesis using assms(2,3) by (metis add_less_cancel_left)
qed

lemma slot_determines_quantum:
  assumes "0 < (S::int)" "0 \<le> a" "0 \<le> b"
    and "nat (a div S) = nat (b div S)" "nat (a mod S) = nat (b mod S)"
  shows "a = b"
proof -
  have "0 \<le> a div S" "0 \<le> b div S" using assms(1,2,3) by (simp_all add: pos_imp_zdiv_nonneg_iff)
  then have d: "a div S = b div S" using assms(4) by linarith
  have "0 \<le> a mod S" "0 \<le> b mod S" using assms(1) by simp_all
  then have m: "a mod S = b mod S" using assms(5) by linarith
  have "a = a div S * S + a mod S" by (rule div_mult_mod_eq [symmetric])
  also have "\<dots> = b div S * S + b mod S" using d m by simp
  also have "\<dots> = b" by (rule div_mult_mod_eq)
  finally show ?thesis .
qed

lemma byte_at_alt:
  assumes "params_ok (quantum dev) (qset dev)"
  shows "byte_at dev x =
     (case quantum_at dev (nat (x div quantum dev div qset dev))
             (nat (x div quantum dev mod qset dev)) of
        None \<Rightarrow> None
      | Some q \<Rightarrow> Some (q ! nat (x mod quantum dev)))"
proof -
  have "0 < quantum dev" "0 < qset dev" using assms by (simp_all add: params_ok_def)
  then show ?thesis
    unfolding byte_at_def by (simp only: split_position)
qed

lemma target_in_range:
  assumes "dev_ok dev" "0 \<le> p" "p < 2 ^ 31 * (quantum dev * qset dev)"
  shows "target dev p =
    Some (nat (p div quantum dev div qset dev), nat (p div quantum dev mod qset dev))"
proof -
  let ?Q = "quantum dev" and ?S = "qset dev"
  have par: "params_ok ?Q ?S" using assms(1) by (simp add: dev_ok_def)
  then have Q: "0 < ?Q" and S: "0 < ?S" and QS: "?Q * ?S < 2 ^ 31"
    by (simp_all add: params_ok_def)
  have pos: "0 < ?Q * ?S" using Q S by simp
  have "p < 2 ^ 31 * 2 ^ 31" 
    using assms(3) QS pos by (smt (verit) mult_strict_left_mono zero_less_numeral zero_less_power)
  then have p1: "p < 2 ^ 63" by simp
  have d0: "0 \<le> p div (?Q * ?S)" using assms(2) pos by (simp add: pos_imp_zdiv_nonneg_iff)
  have "p div (?Q * ?S) < 2 ^ 31"
    by (rule div_less_bound [OF pos assms(3)])
  then have "p div (?Q * ?S) mod 2 ^ 32 = p div (?Q * ?S)"
    using d0 by (simp add: mod_pos_pos_trivial)
  then show ?thesis
    using target_ok [OF assms(1,2) p1] split_position [OF Q S, of p] by simp
qed

subsection \<open>Writing and reading back\<close>

lemma stored_iff: "stored dev bs \<longleftrightarrow> (\<forall>x<length bs. byte_at dev (int x) = Some (bs ! x))"
  by (auto simp: stored_def list_all_iff)

lemma translate_error: "translate Q S p = Inl e \<Longrightarrow> e = Trap_divide"
  by (auto simp: translate_def Let_def split: if_splits)

lemma follow_next_None:
  "follow_next K c ch qs n = (None, ch', c') \<Longrightarrow> \<exists>k. fails K k"
proof (induction n arbitrary: c ch qs)
  case 0
  then show ?case by simp
next
  case (Suc n)
  then show ?case by (auto split: if_splits)
qed

lemma scull_follow_None:
  "scull_follow K c dev n = (None, dev1, c1) \<Longrightarrow> \<exists>k. fails K k"
  by (auto simp: scull_follow_def split: if_splits prod.splits dest: follow_next_None)

lemma scull_write_no_fail:
  assumes "\<forall>k. \<not> fails K k" and "dev_ok dev"
  shows "retval (scull_write K intr c dev ubuf count f_pos) \<noteq> Inl ENOMEM"
proof (cases rule: scull_write_cases [of intr K c dev ubuf count f_pos])
  case Intr
  then show ?thesis by (simp add: ret_def)
next
  case (Trap e)
  then show ?thesis using translate_error [OF Trap(2)] by (simp add: ret_def)
next
  case (NoNode item s_pos q_pos dev1 c1)
  then show ?thesis using scull_follow_None [OF NoNode(3)] assms by simp
next
  case (NoSlots item s_pos q_pos i dev1 c1)
  then show ?thesis using assms
    by (auto simp: alloc_slots_def dev_ok_def params_ok_def split: option.splits if_splits)
next
  case (BadSlot item s_pos q_pos i dev1 c1 slots c2)
  then show ?thesis by (simp add: ret_def)
next
  case (NoQuantum item s_pos q_pos i dev1 c1 slots c2)
  then show ?thesis using assms
    by (auto simp: alloc_quantum_def dev_ok_def params_ok_def split: option.splits if_splits)
next
  case (Copy item s_pos q_pos i dev1 c1 slots c2 q c3)
  then show ?thesis using write_quantum_not_nomem by simp
qed

text \<open>
  The bytes of a device after the buffer of the quantum of \<open>p\<close> has been
  overwritten from position \<open>p\<close> on with \<open>bs\<close>.
\<close>

lemma byte_at_written:
  assumes par: "params_ok (quantum dev) (qset dev)"
    and same: "quantum dev' = quantum dev" "qset dev' = qset dev"
    and qa: "\<forall>j t. quantum_at dev' j t =
        (if j = nat (p div quantum dev div qset dev) \<and> t = nat (p div quantum dev mod qset dev)
         then Some q' else quantum_at dev j t)"
    and q': "q' = poke q (nat (p mod quantum dev)) bs"
    and len: "int (length q) = quantum dev"
    and fit: "p mod quantum dev + int (length bs) \<le> quantum dev"
    and p0: "0 \<le> p" and x0: "0 \<le> x" and x: "p \<le> x" "x < p + int (length bs)"
  shows "byte_at dev' x = Some (bs ! nat (x - p))"
proof -
  let ?Q = "quantum dev" and ?S = "qset dev"
  have Q: "0 < ?Q" and S: "0 < ?S" using par by (simp_all add: params_ok_def)
  have o: "0 \<le> p mod ?Q" using Q by simp
  have "x < p + (?Q - p mod ?Q)" using x(2) fit by linarith
  then have d: "x div ?Q = p div ?Q" and m: "x mod ?Q = p mod ?Q + (x - p)"
    using same_quantum [OF Q x(1)] by simp_all
  have par': "params_ok (quantum dev') (qset dev')" using par same by simp
  have "byte_at dev' x = Some (q' ! nat (x mod ?Q))"
    unfolding byte_at_alt [OF par'] same d using qa by simp
  also have "nat (x mod ?Q) = nat (p mod ?Q) + nat (x - p)"
    using m o x(1) by (simp add: nat_add_distrib)
  also have "q' ! (nat (p mod ?Q) + nat (x - p)) = bs ! nat (x - p)"
  proof -
    have a: "nat (p mod ?Q) + length bs \<le> length q" using fit len o by linarith
    have b: "nat (p mod ?Q) + nat (x - p) < length q" using a x by linarith
    have c: "nat (x - p) < length bs" using x by linarith
    show ?thesis unfolding q' using poke_nth [OF a b] c by simp
  qed
  finally show ?thesis .
qed

lemma byte_at_kept:
  assumes par: "params_ok (quantum dev) (qset dev)"
    and same: "quantum dev' = quantum dev" "qset dev' = qset dev"
    and qa: "\<forall>j t. quantum_at dev' j t =
        (if j = nat (p div quantum dev div qset dev) \<and> t = nat (p div quantum dev mod qset dev)
         then Some q' else quantum_at dev j t)"
    and q': "q' = poke q (nat (p mod quantum dev)) bs"
    and len: "int (length q) = quantum dev"
    and fit: "p mod quantum dev + int (length bs) \<le> quantum dev"
    and old: "\<forall>q0. quantum_at dev (nat (p div quantum dev div qset dev))
                 (nat (p div quantum dev mod qset dev)) = Some q0 \<longrightarrow> q = q0"
    and p0: "0 \<le> p" and x0: "0 \<le> x" and x: "x < p"
    and v: "byte_at dev x = Some v"
  shows "byte_at dev' x = Some v"
proof -
  let ?Q = "quantum dev" and ?S = "qset dev"
  have Q: "0 < ?Q" and S: "0 < ?S" using par by (simp_all add: params_ok_def)
  have par': "params_ok (quantum dev') (qset dev')" using par same by simp
  have xd: "0 \<le> x div ?Q" and pd: "0 \<le> p div ?Q"
    using Q x0 p0 by (simp_all add: pos_imp_zdiv_nonneg_iff)
  show ?thesis
  proof (cases "x div ?Q = p div ?Q")
    case True
    obtain q0 where q0: "quantum_at dev (nat (p div ?Q div ?S)) (nat (p div ?Q mod ?S)) = Some q0"
      and v0: "v = q0 ! nat (x mod ?Q)"
      using v unfolding byte_at_alt [OF par] True by (auto split: option.splits)
    have qq: "q = q0" using old q0 by simp
    have lt: "x mod ?Q < p mod ?Q" by (rule earlier_in_quantum [OF Q x True])
    have o: "0 \<le> x mod ?Q" using Q by simp
    have a: "nat (p mod ?Q) + length bs \<le> length q" using fit len o lt by linarith
    have b: "nat (x mod ?Q) < length q" using lt o a by linarith
    have "byte_at dev' x = Some (q' ! nat (x mod ?Q))"
      unfolding byte_at_alt [OF par'] same True using qa by simp
    also have "q' ! nat (x mod ?Q) = q ! nat (x mod ?Q)"
    proof -
      have nle: "\<not> (nat (p mod ?Q) \<le> nat (x mod ?Q) \<and>
                    nat (x mod ?Q) < nat (p mod ?Q) + length bs)"
        using lt o by linarith
      show ?thesis unfolding q' poke_nth [OF a b] by (simp only: nle if_False)
    qed
    finally show ?thesis using v0 qq by simp
  next
    case False
    have ne: "\<not> (nat (x div ?Q div ?S) = nat (p div ?Q div ?S) \<and>
             nat (x div ?Q mod ?S) = nat (p div ?Q mod ?S))"
      using slot_determines_quantum [OF S xd pd] False by blast
    have "quantum_at dev' (nat (x div ?Q div ?S)) (nat (x div ?Q mod ?S)) =
        (if nat (x div ?Q div ?S) = nat (p div ?Q div ?S) \<and>
            nat (x div ?Q mod ?S) = nat (p div ?Q mod ?S)
         then Some q' else quantum_at dev (nat (x div ?Q div ?S)) (nat (x div ?Q mod ?S)))"
      using qa by blast
    then have "quantum_at dev' (nat (x div ?Q div ?S)) (nat (x div ?Q mod ?S)) =
               quantum_at dev (nat (x div ?Q div ?S)) (nat (x div ?Q mod ?S))"
      by (simp only: ne if_False)
    then show ?thesis using v unfolding byte_at_alt [OF par'] byte_at_alt [OF par] same by simp
  qed
qed

lemma range_bound:
  assumes "params_ok Q S" "x \<le> 2 ^ 31 * (Q * S)"
  shows "x < 2 ^ 62"
proof -
  have "Q * S < 2 ^ 31" using assms(1) by (simp add: params_ok_def)
  then have "2 ^ 31 * (Q * S) < 2 ^ 31 * (2 ^ 31 :: int)"
    by (intro mult_strict_left_mono) simp_all
  then show ?thesis using assms(2) by simp
qed

text \<open>
  One call of the writing loop: the device holds \<open>pre\<close>, the call is at the
  position \<open>length pre\<close> with the bytes \<open>buf\<close> left to write, and no allocation
  fails. The call accepts \<open>n > 0\<close> bytes and the device then holds \<open>pre @ take n buf\<close>.
\<close>

lemma write_step:
  assumes nf: "\<forall>k. \<not> fails K k" and ok: "dev_ok dev" and st: "stored dev pre"
    and p: "p = int (length pre)" and ne: "buf \<noteq> []"
    and bound: "p + int (length buf) \<le> 2 ^ 31 * (quantum dev * qset dev)"
    and r: "r = scull_write K False c dev buf (int (length buf)) p"
  shows "\<exists>n. 0 < n \<and> n \<le> length buf \<and> retval r = Inr (int n) \<and> new_pos r = p + int n \<and>
      dev_ok (new_dev r) \<and> quantum (new_dev r) = quantum dev \<and> qset (new_dev r) = qset dev \<and>
      size (new_dev r) = max (size dev) (p + int n) \<and> stored (new_dev r) (pre @ take n buf)"
proof -
  let ?Q = "quantum dev" and ?S = "qset dev"
  have par: "params_ok ?Q ?S" using ok by (simp add: dev_ok_def)
  then have Q: "0 < ?Q" and S: "0 < ?S" by (simp_all add: params_ok_def)
  have p0: "0 \<le> p" using p by simp
  have lb: "0 < int (length buf)" using ne by simp
  have plt: "p < 2 ^ 31 * (?Q * ?S)" using bound lb by linarith
  have "p + int (length buf) < 2 ^ 62" by (rule range_bound [OF par bound])
  then have args: "args_ok (int (length buf)) p" using p0 by (simp add: args_ok_def)
  have tg: "target dev p = Some (nat (p div ?Q div ?S), nat (p div ?Q mod ?S))"
    by (rule target_in_range [OF ok p0 plt])
  have nm: "retval (scull_write K False c dev buf (int (length buf)) p) \<noteq> Inl ENOMEM"
    by (rule scull_write_no_fail [OF nf ok])
  have off: "p mod (?Q * ?S) mod ?Q = p mod ?Q" by (rule split_position(3) [OF Q S])
  define m where "m = min (int (length buf)) (?Q - p mod ?Q)"
  have o: "0 \<le> p mod ?Q" "p mod ?Q < ?Q" using Q by simp_all
  have m0: "0 < m" "m \<le> int (length buf)" "m \<le> ?Q - p mod ?Q"
    using lb o by (simp_all add: m_def)
  have mn: "m = min (int (length buf)) (?Q - p mod (?Q * ?S) mod ?Q)"
    unfolding off by (rule m_def)
  have fits: "nat m \<le> length buf" using m0 by linarith
  obtain q q' where q: "\<forall>q0. quantum_at dev (nat (p div ?Q div ?S)) (nat (p div ?Q mod ?S))
        = Some q0 \<longrightarrow> q = q0"
    and len: "int (length q) = ?Q"
    and qa: "\<forall>j t. quantum_at (new_dev r) j t =
        (if j = nat (p div ?Q div ?S) \<and> t = nat (p div ?Q mod ?S)
         then Some q' else quantum_at dev j t)"
    and okr: "dev_ok (new_dev r)" and fl: "quantum (new_dev r) = ?Q" "qset (new_dev r) = ?S"
    and res: "retval r = Inr m" "new_pos r = p + m" "size (new_dev r) = max (size dev) (p + m)"
    and q': "q' = poke q (nat (p mod ?Q)) (take (nat m) buf)"
    using scull_write_result [OF ok _ args tg nm refl mn r] fits off by auto
  have lt: "length (take (nat m) buf) = nat m" using fits by simp
  have fit: "p mod ?Q + int (length (take (nat m) buf)) \<le> ?Q"
    unfolding lt using m0 by linarith
  have "byte_at (new_dev r) (int x) = Some ((pre @ take (nat m) buf) ! x)"
    if x: "x < length pre + nat m" for x
  proof (cases "x < length pre")
    case True
    then have v: "byte_at dev (int x) = Some (pre ! x)" using st by (simp add: stored_iff)
    have "byte_at (new_dev r) (int x) = Some (pre ! x)"
      by (rule byte_at_kept [OF par fl qa q' len fit q p0 _ _ v]) (use True p in simp_all)
    then show ?thesis using True by (simp add: nth_append)
  next
    case False
    then have x1: "p \<le> int x" "int x < p + int (length (take (nat m) buf))"
      unfolding lt using p x m0 by linarith+
    have "byte_at (new_dev r) (int x) = Some (take (nat m) buf ! nat (int x - p))"
      by (rule byte_at_written [OF par fl qa q' len fit p0 _ x1]) simp
    moreover have "nat (int x - p) = x - length pre" using p by simp
    ultimately show ?thesis using False by (simp add: nth_append)
  qed
  then have "stored (new_dev r) (pre @ take (nat m) buf)"
    using lt by (simp add: stored_iff)
  moreover have "int (nat m) = m" using m0 by simp
  ultimately show ?thesis
    using m0 fits okr fl res by (intro exI [of _ "nat m"]) simp
qed


text \<open>The writing loop, by induction on the number of bytes left.\<close>

lemma write_all_stored:
  assumes nf: "\<forall>k. \<not> fails K k"
  shows "dev_ok dev \<Longrightarrow> stored dev pre \<Longrightarrow> size dev = int (length pre) \<Longrightarrow>
     p = int (length pre) \<Longrightarrow>
     int (length pre) + int (length buf) \<le> 2 ^ 31 * (quantum dev * qset dev) \<Longrightarrow>
     \<exists>ns dev' c'. write_all K c dev buf p = Some (ns, dev', c', p + int (length buf)) \<and>
        dev_ok dev' \<and> quantum dev' = quantum dev \<and> qset dev' = qset dev \<and>
        size dev' = p + int (length buf) \<and> stored dev' (pre @ buf)"
proof (induction "length buf" arbitrary: buf c dev pre p rule: less_induct)
  case less
  show ?case
  proof (cases "buf = []")
    case True
    then show ?thesis using less.prems by (simp add: write_all.simps)
  next
    case False
    define r where "r = scull_write K False c dev buf (int (length buf)) p"
    have bound: "p + int (length buf) \<le> 2 ^ 31 * (quantum dev * qset dev)"
      using less.prems(4,5) by simp
    obtain n where n: "0 < n" "n \<le> length buf" and rv: "retval r = Inr (int n)"
      "new_pos r = p + int n"
      and okr: "dev_ok (new_dev r)" and fl: "quantum (new_dev r) = quantum dev"
      "qset (new_dev r) = qset dev"
      and sz: "size (new_dev r) = max (size dev) (p + int n)"
      and st: "stored (new_dev r) (pre @ take n buf)"
      using write_step [OF nf less.prems(1,2,4) False bound r_def] by blast
    have sz': "size (new_dev r) = int (length (pre @ take n buf))"
      using sz less.prems(3,4) n by simp
    have p': "new_pos r = int (length (pre @ take n buf))"
      using rv(2) less.prems(4) n by simp
    have b': "int (length (pre @ take n buf)) + int (length (drop n buf))
        \<le> 2 ^ 31 * (quantum (new_dev r) * qset (new_dev r))"
      using less.prems(5) n fl by simp
    have sh: "length (drop n buf) < length buf" using n False by simp
    obtain ns dev' c' where
      w: "write_all K (new_nalloc r) (new_dev r) (drop n buf) (new_pos r) =
           Some (ns, dev', c', new_pos r + int (length (drop n buf)))"
      and ok': "dev_ok dev'" and fl': "quantum dev' = quantum (new_dev r)"
        "qset dev' = qset (new_dev r)"
      and sz'': "size dev' = new_pos r + int (length (drop n buf))"
      and st': "stored dev' ((pre @ take n buf) @ drop n buf)"
      using less.hyps [OF sh okr st sz' p' b', of "new_nalloc r"] by blast
    have e: "new_pos r + int (length (drop n buf)) = p + int (length buf)"
      using rv(2) n by simp
    have "write_all K c dev buf p = Some (int n # ns, dev', c', p + int (length buf))"
      using False rv(1) n w e
      by (subst write_all.simps) (simp add: r_def [symmetric])
    then show ?thesis using ok' fl' fl sz'' st' e by simp
  qed
qed

text \<open>
  One call of the reading loop at a position \<open>p\<close> below the number of bytes the
  device holds: it returns \<open>k > 0\<close> bytes, the bytes \<open>bs\<close> has from \<open>p\<close> on.
\<close>

lemma read_step:
  assumes ok: "dev_ok dev" and st: "stored dev bs" and sz: "size dev = int (length bs)"
    and bound: "int (length bs) \<le> 2 ^ 31 * (quantum dev * qset dev)"
    and p0: "0 \<le> p" and n0: "0 < n" and pn: "p + n = int (length bs)"
  shows "\<exists>k. 0 < k \<and> k \<le> n \<and>
     scull_read K False c dev (nat n) n p =
       ret (Inr k) (p + k) dev c (take (nat k) (drop (nat p) bs))"
proof -
  let ?Q = "quantum dev" and ?S = "qset dev"
  have par: "params_ok ?Q ?S" using ok by (simp add: dev_ok_def)
  then have Q: "0 < ?Q" and S: "0 < ?S" by (simp_all add: params_ok_def)
  have plt: "p < 2 ^ 31 * (?Q * ?S)" using bound pn n0 by linarith
  have "int (length bs) < 2 ^ 62" by (rule range_bound [OF par bound])
  then have args: "args_ok n p" using p0 n0 pn by (simp add: args_ok_def)
  have lt: "p < size dev" using sz pn n0 by linarith
  have tg: "target dev p = Some (nat (p div ?Q div ?S), nat (p div ?Q mod ?S))"
    by (rule target_in_range [OF ok p0 plt])
  have off: "p mod (?Q * ?S) mod ?Q = p mod ?Q" by (rule split_position(3) [OF Q S])
  have o: "0 \<le> p mod ?Q" "p mod ?Q < ?Q" using Q by simp_all
  define k where "k = min n (?Q - p mod ?Q)"
  have k0: "0 < k" "k \<le> n" "k \<le> ?Q - p mod ?Q" using n0 o by (simp_all add: k_def)
  have kn: "k = min (min n (size dev - p)) (?Q - p mod (?Q * ?S) mod ?Q)"
    unfolding off k_def using sz pn by simp
  have bytes: "byte_at dev x = Some (bs ! nat x)" if "0 \<le> x" "x < int (length bs)" for x
  proof -
    have l: "nat x < length bs" using that by linarith
    have e: "int (nat x) = x" using that(1) by simp
    have "byte_at dev (int (nat x)) = Some (bs ! nat x)"
      using st l unfolding stored_iff by blast
    then show ?thesis unfolding e .
  qed
  have "byte_at dev p = Some (bs ! nat p)" using bytes p0 pn n0 by simp
  then obtain q where q: "quantum_at dev (nat (p div ?Q div ?S)) (nat (p div ?Q mod ?S)) = Some q"
    unfolding byte_at_alt [OF par] by (auto split: option.splits)
  have len: "int (length q) = ?Q" by (rule dev_ok_quantum [OF ok q])
  have rd: "scull_read K False c dev (nat n) n p =
      ret (Inr k) (p + k) dev c (take (nat k) (drop (nat (p mod ?Q)) q))"
    using scull_read_result [OF ok _ args lt tg q refl kn, of False K c "nat n"] k0 off by simp
  have "take (nat k) (drop (nat (p mod ?Q)) q) = take (nat k) (drop (nat p) bs)"
  proof (rule nth_equalityI)
    have l1: "length (take (nat k) (drop (nat (p mod ?Q)) q)) = nat k"
      using len k0 o by simp
    have l2: "length (take (nat k) (drop (nat p) bs)) = nat k"
      using pn k0 p0 by simp
    show "length (take (nat k) (drop (nat (p mod ?Q)) q)) = length (take (nat k) (drop (nat p) bs))"
      using l1 l2 by simp
    fix j assume "j < length (take (nat k) (drop (nat (p mod ?Q)) q))"
    then have j: "j < nat k" using l1 by simp
    have x1: "p \<le> p + int j" "p + int j < p + (?Q - p mod ?Q)" using j k0 by linarith+
    have d: "(p + int j) div ?Q = p div ?Q" and m: "(p + int j) mod ?Q = p mod ?Q + (p + int j - p)"
      using same_quantum [OF Q x1] by simp_all
    have "byte_at dev (p + int j) = Some (bs ! nat (p + int j))"
      using bytes [of "p + int j"] p0 j pn k0 by simp
    moreover have "byte_at dev (p + int j) = Some (q ! nat ((p + int j) mod ?Q))"
      unfolding byte_at_alt [OF par] d using q by simp
    ultimately have "q ! nat ((p + int j) mod ?Q) = bs ! nat (p + int j)" by simp
    moreover have "nat ((p + int j) mod ?Q) = nat (p mod ?Q) + j" using m o by simp
    moreover have "nat (p + int j) = nat p + j" using p0 by simp
    ultimately have "q ! (nat (p mod ?Q) + j) = bs ! (nat p + j)" by simp
    moreover have "nat (p mod ?Q) + j < length q" using len j k0 o by linarith
    moreover have "nat p + j < length bs" using pn j k0 p0 by linarith
    ultimately show "take (nat k) (drop (nat (p mod ?Q)) q) ! j = take (nat k) (drop (nat p) bs) ! j"
      using j by simp
  qed
  then show ?thesis using rd k0 by (intro exI [of _ k]) simp
qed

text \<open>The reading loop, by induction on the number of bytes missing.\<close>

lemma read_all_stored:
  assumes ok: "dev_ok dev" and st: "stored dev bs" and sz: "size dev = int (length bs)"
    and bound: "int (length bs) \<le> 2 ^ 31 * (quantum dev * qset dev)"
  shows "0 \<le> p \<Longrightarrow> 0 \<le> n \<Longrightarrow> p + n = int (length bs) \<Longrightarrow>
         read_all K c dev n p = Some (drop (nat p) bs)"
proof (induction "nat n" arbitrary: n p rule: less_induct)
  case less
  show ?case
  proof (cases "n = 0")
    case True
    then show ?thesis using less.prems by (simp add: read_all.simps)
  next
    case False
    then have n0: "0 < n" using less.prems(2) by simp
    obtain k where k: "0 < k" "k \<le> n"
      and rd: "scull_read K False c dev (nat n) n p =
         ret (Inr k) (p + k) dev c (take (nat k) (drop (nat p) bs))"
      using read_step [OF ok st sz bound less.prems(1) n0 less.prems(3)] by blast
    have sh: "nat (n - k) < nat n" using k by linarith
    have rest: "read_all K c dev (n - k) (p + k) = Some (drop (nat (p + k)) bs)"
      using less.hyps [OF sh, of "p + k"] less.prems k by simp
    have e: "nat (p + k) = nat k + nat p" using less.prems(1) k by linarith
    have "take (nat k) (drop (nat p) bs) @ drop (nat k) (drop (nat p) bs) = drop (nat p) bs"
      by (rule append_take_drop_id)
    then have "take (nat k) (drop (nat p) bs) @ drop (nat (p + k)) bs = drop (nat p) bs"
      unfolding e by (simp only: drop_drop)
    then show ?thesis
      using n0 k rest rd
      by (subst read_all.simps) (simp add: ret_def)
  qed
qed


text \<open>
  Claim C1, as amended. For all positive \<open>Q\<close> and \<open>S\<close> with \<open>Q * S < 2 ^ 31\<close>, every
  byte sequence \<open>bs\<close> of at most \<open>2 ^ 31 * Q * S\<close> bytes and every allocator that
  never fails: on the fresh device the writing loop from position 0 accepts all
  of \<open>bs\<close> and ends at position \<open>length bs\<close>, and the reading loop from position 0
  then returns exactly \<open>bs\<close>.
\<close>

theorem write_then_read:
  assumes "0 < Q" and "0 < S" and "Q * S < 2 ^ 31"
    and "int (length bs) \<le> 2 ^ 31 * (Q * S)" and "\<forall>k. \<not> fails K k"
  shows "round_trip K Q S bs \<and>
     (\<exists>ns dev c. write_all K 0 (scull_init Q S) bs 0 = Some (ns, dev, c, int (length bs)) \<and>
        size dev = int (length bs) \<and> read_all K c dev (int (length bs)) 0 = Some bs)"
proof -
  have par: "params_ok Q S" using assms(1,2,3) by (simp add: params_ok_def)
  have ok0: "dev_ok (scull_init Q S)" by (rule scull_init_ok [OF par])
  have st0: "stored (scull_init Q S) []" by (simp add: stored_iff)
  have f0: "quantum (scull_init Q S) = Q" "qset (scull_init Q S) = S" "size (scull_init Q S) = 0"
    by (simp_all add: scull_init_def)
  have b0: "int (length ([] :: string)) + int (length bs)
      \<le> 2 ^ 31 * (quantum (scull_init Q S) * qset (scull_init Q S))"
    using assms(4) f0 by simp
  obtain ns dev c where w: "write_all K 0 (scull_init Q S) bs 0 = Some (ns, dev, c, int (length bs))"
    and ok: "dev_ok dev" and fl: "quantum dev = Q" "qset dev = S"
    and sz: "size dev = int (length bs)" and st: "stored dev bs"
    using write_all_stored [OF assms(5) ok0 st0 _ _ b0, of 0 0] f0 by auto
  have b: "int (length bs) \<le> 2 ^ 31 * (quantum dev * qset dev)" using assms(4) fl by simp
  have rd: "read_all K c dev (int (length bs)) 0 = Some bs"
    using read_all_stored [OF ok st sz b, of 0 "int (length bs)" K c] by simp
  have "round_trip K Q S bs" using w rd by (simp add: round_trip_def)
  then show ?thesis using w sz rd by blast
qed

theorem write_then_read_witness:
  "(0::int) < 4 \<and> (0::int) < 2 \<and> (4::int) * 2 < 2 ^ 31 \<and>
   int (length ''ABCDEFGHIJ'') \<le> 2 ^ 31 * (4 * 2) \<and> (\<forall>k. \<not> fails kmem_ok k) \<and>
   round_trip kmem_ok 4 2 ''ABCDEFGHIJ''"
  using write_then_read [of 4 2 "''ABCDEFGHIJ''" kmem_ok] by (simp add: kmem_ok_def)

text \<open>
  With \<open>Q = S = 65536\<close> the product \<^verbatim>\<open>quantum * qset\<close> is 0 as an \<^verbatim>\<open>int\<close>: the first
  call of \<^verbatim>\<open>write\<close> divides by zero, and no byte is accepted.
\<close>

theorem write_then_read_counterexample:
  "retval (scull_write kmem_ok False 0 (scull_init 65536 65536) ''A'' 1 0) = Inl Trap_divide \<and>
   write_all kmem_ok 0 (scull_init 65536 65536) ''A'' 0 = None \<and>
   \<not> round_trip kmem_ok 65536 65536 ''A''"
proof -
  have t: "retval (scull_write kmem_ok False 0 (scull_init 65536 65536) ''A'' 1 0) = Inl Trap_divide"
    by (simp add: scull_eval)
  have w: "write_all kmem_ok 0 (scull_init 65536 65536) ''A'' 0 = None"
    using t by (subst write_all.simps) simp
  show ?thesis using t w by (simp add: round_trip_def)
qed

subsection \<open>Faults of the user buffer\<close>

text \<open>
  Claim C6. A call of \<^verbatim>\<open>scull_read\<close> or \<^verbatim>\<open>scull_write\<close> that returns \<^verbatim>\<open>-EFAULT\<close>
  leaves \<^verbatim>\<open>*f_pos\<close> and the \<^verbatim>\<open>size\<close> of the device as they were, and the read hands
  no bytes to the caller. The copy fails, and the call returns \<^verbatim>\<open>-EFAULT\<close>, when
  the user buffer is shorter than the clamped count: for a read on a well-formed
  device at a position below \<^verbatim>\<open>size\<close> whose target holds a buffer, and for a write
  on a well-formed device that gets its buffer (no \<^verbatim>\<open>-ENOMEM\<close>).
\<close>

theorem fault_changes_nothing:
  "(retval (scull_read K intr c dev ucap count f_pos) = Inl EFAULT \<longrightarrow>
      new_pos (scull_read K intr c dev ucap count f_pos) = f_pos \<and>
      size (new_dev (scull_read K intr c dev ucap count f_pos)) = size dev \<and>
      copied (scull_read K intr c dev ucap count f_pos) = []) \<and>
   (retval (scull_write K intr c dev ubuf count f_pos) = Inl EFAULT \<longrightarrow>
      new_pos (scull_write K intr c dev ubuf count f_pos) = f_pos \<and>
      size (new_dev (scull_write K intr c dev ubuf count f_pos)) = size dev) \<and>
   (dev_ok dev \<and> \<not> intr \<and> args_ok count f_pos \<and> f_pos < size dev \<and>
    target dev f_pos = Some (i, s) \<and> quantum_at dev i s = Some q \<and>
    int ucap < min (min count (size dev - f_pos))
                 (quantum dev - f_pos mod (quantum dev * qset dev) mod quantum dev) \<longrightarrow>
      retval (scull_read K intr c dev ucap count f_pos) = Inl EFAULT) \<and>
   (dev_ok dev \<and> \<not> intr \<and> args_ok count f_pos \<and>
    retval (scull_write K intr c dev ubuf count f_pos) \<noteq> Inl ENOMEM \<and>
    int (length ubuf) < min count
                 (quantum dev - f_pos mod (quantum dev * qset dev) mod quantum dev) \<longrightarrow>
      retval (scull_write K intr c dev ubuf count f_pos) = Inl EFAULT)"
proof -
  let ?off = "f_pos mod (quantum dev * qset dev) mod quantum dev"
  have r: "retval (scull_read K intr c dev ucap count f_pos) = Inl EFAULT"
    if "dev_ok dev" "\<not> intr" "args_ok count f_pos" "f_pos < size dev"
      "target dev f_pos = Some (i, s)" "quantum_at dev i s = Some q"
      "int ucap < min (min count (size dev - f_pos)) (quantum dev - ?off)"
    using scull_read_result [OF that(1,2,3,4,5,6) refl refl, of K c ucap] that(7)
    by (simp add: ret_def)
  have w: "retval (scull_write K intr c dev ubuf count f_pos) = Inl EFAULT"
    if ok: "dev_ok dev" and ni: "\<not> intr" and args: "args_ok count f_pos"
      and nm: "retval (scull_write K intr c dev ubuf count f_pos) \<noteq> Inl ENOMEM"
      and sh: "int (length ubuf) < min count (quantum dev - ?off)"
  proof -
    have p: "0 \<le> f_pos" "f_pos < 2 ^ 63" using args by (simp_all add: args_ok_def)
    have "\<not> nat (min count (quantum dev - ?off)) \<le> length ubuf" using sh by linarith
    then show ?thesis
      using scull_write_result [OF ok ni args target_ok [OF ok p] nm refl refl refl] by auto
  qed
  show ?thesis
    using scull_read_fault [of K intr c dev ucap count f_pos]
      scull_read_fields [of K intr c dev ucap count f_pos]
      scull_write_error [of K intr c dev ubuf count f_pos EFAULT] r w
    by blast
qed

theorem fault_changes_nothing_witness:
  "dev_ok dev_ab \<and> args_ok 3 0 \<and> 0 < size dev_ab \<and> target dev_ab 0 = Some (0, 0) \<and>
   quantum_at dev_ab 0 0 = Some ''ABCD'' \<and>
   int 2 < min (min 3 (size dev_ab - 0))
              (quantum dev_ab - 0 mod (quantum dev_ab * qset dev_ab) mod quantum dev_ab) \<and>
   retval (scull_read kmem_ok False 0 dev_ab 2 3 0) = Inl EFAULT \<and>
   new_pos (scull_read kmem_ok False 0 dev_ab 2 3 0) = 0 \<and>
   size (new_dev (scull_read kmem_ok False 0 dev_ab 2 3 0)) = size dev_ab \<and>
   copied (scull_read kmem_ok False 0 dev_ab 2 3 0) = [] \<and>
   args_ok 3 1 \<and> retval (scull_write kmem_ok False 0 dev_ab ''xy'' 3 1) \<noteq> Inl ENOMEM \<and>
   int (length ''xy'') < min 3
              (quantum dev_ab - 1 mod (quantum dev_ab * qset dev_ab) mod quantum dev_ab) \<and>
   retval (scull_write kmem_ok False 0 dev_ab ''xy'' 3 1) = Inl EFAULT \<and>
   new_pos (scull_write kmem_ok False 0 dev_ab ''xy'' 3 1) = 1 \<and>
   size (new_dev (scull_write kmem_ok False 0 dev_ab ''xy'' 3 1)) = size dev_ab"
proof -
  have ok: "dev_ok dev_ab"
    by (simp add: dev_ok_def params_ok_def qset_ok_def slot_ok_def dev_ab_def)
  have a: "args_ok 3 0" "args_ok 3 1" by (simp_all add: args_ok_def)
  have sz: "0 < size dev_ab" by (simp add: dev_ab_def)
  have t: "target dev_ab 0 = Some (0, 0)" by (simp add: target_def scull_eval)
  have q: "quantum_at dev_ab 0 0 = Some ''ABCD''" by (simp add: quantum_at_def dev_ab_def)
  have u: "int 2 < min (min 3 (size dev_ab - 0))
              (quantum dev_ab - 0 mod (quantum dev_ab * qset dev_ab) mod quantum dev_ab)"
    by (simp add: dev_ab_def)
  have nm: "retval (scull_write kmem_ok False 0 dev_ab ''xy'' 3 1) \<noteq> Inl ENOMEM"
    by (simp add: scull_eval)
  have l: "int (length ''xy'') < min 3
              (quantum dev_ab - 1 mod (quantum dev_ab * qset dev_ab) mod quantum dev_ab)"
    by (simp add: dev_ab_def)
  have r1: "retval (scull_read kmem_ok False 0 dev_ab 2 3 0) = Inl EFAULT"
    using fault_changes_nothing [of kmem_ok False 0 dev_ab 2 3 0 "''xy''" 0 0 "''ABCD''"]
      ok a(1) sz t q u by blast
  have r2: "new_pos (scull_read kmem_ok False 0 dev_ab 2 3 0) = 0 \<and>
      size (new_dev (scull_read kmem_ok False 0 dev_ab 2 3 0)) = size dev_ab \<and>
      copied (scull_read kmem_ok False 0 dev_ab 2 3 0) = []"
    using fault_changes_nothing [of kmem_ok False 0 dev_ab 2 3 0 "''xy''" 0 0 "''ABCD''"] r1
    by blast
  have w1: "retval (scull_write kmem_ok False 0 dev_ab ''xy'' 3 1) = Inl EFAULT"
    using fault_changes_nothing [of kmem_ok False 0 dev_ab 2 3 1 "''xy''" 0 0 "''ABCD''"]
      ok a(2) nm l by blast
  have w2: "new_pos (scull_write kmem_ok False 0 dev_ab ''xy'' 3 1) = 1 \<and>
      size (new_dev (scull_write kmem_ok False 0 dev_ab ''xy'' 3 1)) = size dev_ab"
    using fault_changes_nothing [of kmem_ok False 0 dev_ab 2 3 1 "''xy''" 0 0 "''ABCD''"] w1
    by blast
  show ?thesis using ok a sz t q u nm l r1 r2 w1 w2 by blast
qed

subsection \<open>What a read does to the chain\<close>


















subsection \<open>The claim about reads and the chain\<close>





end
